theory Spec2Isabelle
  imports Complex_Main "HOL-Library.Sublist" "HOL-Library.Multiset" "HOL-Library.Word"
begin

section \<open>Python values shared by the three modules\<close>

text \<open>
  Exceptions are values. Every \<^verbatim>\<open>raise\<close> the modelled functions can reach,
  also the ones their guards exclude, is a branch that returns \<open>Inl\<close>.
\<close>

datatype py_error = ValueError | IndexError | ZeroDivisionError | CvError

text \<open>
  \<^verbatim>\<open>max(iterable, key=...)\<close>: the first item is the provisional best, a later
  item replaces it only when its key is strictly greater, an empty iterable raises
  \<^verbatim>\<open>ValueError\<close>.
\<close>

fun py_max_from :: "('a \<Rightarrow> 'k::linorder) \<Rightarrow> 'a \<Rightarrow> 'a list \<Rightarrow> 'a" where
  "py_max_from key best [] = best"
| "py_max_from key best (x # xs) =
     py_max_from key (if key best < key x then x else best) xs"

fun py_max :: "('a \<Rightarrow> 'k::linorder) \<Rightarrow> 'a list \<Rightarrow> py_error + 'a" where
  "py_max key [] = Inl ValueError"
| "py_max key (x # xs) = Inr (py_max_from key x xs)"

text \<open>
  \<^verbatim>\<open>sorted(xs, key=..., reverse=True)\<close>: the list is reversed, sorted by a stable
  ascending sort and reversed again, so items of equal key keep their order.
\<close>

definition py_sorted_reverse :: "('a \<Rightarrow> 'k::linorder) \<Rightarrow> 'a list \<Rightarrow> 'a list" where
  "py_sorted_reverse key xs = rev (sort_key key (rev xs))"

text \<open>
  A slice \<^verbatim>\<open>xs[a:b]\<close> with integer bounds: a negative bound counts from the end,
  every bound is clamped to the length, and an empty range gives the empty list.
\<close>

definition py_slice_bound :: "nat \<Rightarrow> int \<Rightarrow> nat" where
  "py_slice_bound n i = (if i < 0 then nat (max 0 (int n + i)) else min n (nat i))"

definition py_slice :: "'a list \<Rightarrow> int \<Rightarrow> int \<Rightarrow> 'a list" where
  "py_slice xs a b =
     (let lo = py_slice_bound (length xs) a; hi = py_slice_bound (length xs) b
      in take (hi - lo) (drop lo xs))"

text \<open>
  Floats are doubles. The arithmetic on them is the exact arithmetic followed by a
  rounding function \<open>fl\<close>, which the models take as a parameter: \<open>fl x\<close> stands for
  the double nearest to the real number \<open>x\<close>. \<^verbatim>\<open>float(n)\<close> of an integer rounds it,
  and so does the conversion of an integer operand in a mixed operation.
  \<^verbatim>\<open>int(x)\<close> of a float truncates towards zero.
\<close>

definition py_float :: "(real \<Rightarrow> real) \<Rightarrow> int \<Rightarrow> real" where
  "py_float fl n = fl (real_of_int n)"

definition py_int :: "real \<Rightarrow> int" where
  "py_int x = (if 0 \<le> x then \<lfloor>x\<rfloor> else \<lceil>x\<rceil>)"

section \<open>Text: \<^verbatim>\<open>utils/ocr_processor.py\<close>\<close>

text \<open>
  A Python \<^verbatim>\<open>str\<close> is the list of its code points. The string methods
  \<^verbatim>\<open>str.upper\<close> and \<^verbatim>\<open>str.strip\<close> are built into Python and depend on the Unicode
  tables (\<^verbatim>\<open>upper\<close> can lengthen a text, \<^verbatim>\<open>strip\<close> removes every Unicode
  whitespace): the models take them as the parameters \<open>upper\<close> and \<open>strip\<close>, and nothing
  is assumed of them. A confidence is a float that is only compared, never computed
  with: it is a \<^typ>\<open>real\<close> (no NaN).
\<close>

type_synonym py_str = "nat list"

text \<open>
  The character class \<^verbatim>\<open>[A-Z0-9]\<close>, by code point, and
  \<^verbatim>\<open>re.sub(r'[^A-Z0-9]', '', text.upper())\<close>.
\<close>

definition plate_char :: "nat \<Rightarrow> bool" where
  "plate_char c = ((65 \<le> c \<and> c \<le> 90) \<or> (48 \<le> c \<and> c \<le> 57))"

definition cleaned :: "(py_str \<Rightarrow> py_str) \<Rightarrow> py_str \<Rightarrow> py_str" where
  "cleaned upper text = filter plate_char (upper text)"

text \<open>The loop of \<^verbatim>\<open>extract_plate_number\<close> that fills \<^verbatim>\<open>cleaned_results\<close>.\<close>

fun cleaned_results ::
  "(py_str \<Rightarrow> py_str) \<Rightarrow> (py_str \<times> real) list \<Rightarrow> (py_str \<times> real) list" where
  "cleaned_results upper [] = []"
| "cleaned_results upper ((text, conf) # rest) =
     (if 4 \<le> length (cleaned upper text) \<and> length (cleaned upper text) \<le> 10
      then (cleaned upper text, conf) # cleaned_results upper rest
      else cleaned_results upper rest)"

text \<open>
  \<^verbatim>\<open>extract_plate_number\<close>, from the list that \<^verbatim>\<open>self.extract_text(img)\<close>
  returned: the recogniser itself is outside the model.
\<close>

definition extract_plate_number ::
  "(py_str \<Rightarrow> py_str) \<Rightarrow> (py_str \<Rightarrow> py_str) \<Rightarrow> (py_str \<times> real) list
     \<Rightarrow> py_error + (py_str \<times> real) option" where
  "extract_plate_number upper strip results =
     (if results = [] then Inr None
      else if cleaned_results upper results = [] then
        (if results \<noteq> [] then
           (case py_max snd results of
              Inl e \<Rightarrow> Inl e
            | Inr (text, conf) \<Rightarrow> Inr (Some (upper (strip text), conf)))
         else Inr None)
      else
        (case py_max snd (cleaned_results upper results) of
           Inl e \<Rightarrow> Inl e
         | Inr best_result \<Rightarrow> Inr (Some best_result)))"

section \<open>Images: \<^verbatim>\<open>utils/image_handler.py\<close>\<close>

text \<open>
  An image is a grid of pixels, a list of rows; the pixel type is a parameter (one
  sample for a grey image, three for a colour one). \<^verbatim>\<open>img.shape[:2]\<close> is the number
  of rows and the length of a row.
\<close>

type_synonym 'px grid = "'px list list"

definition shape :: "'px grid \<Rightarrow> int \<times> int" where
  "shape img = (int (length img), (case img of [] \<Rightarrow> 0 | row # _ \<Rightarrow> int (length row)))"

type_synonym byte = "8 word"

definition MAX_FILE_SIZE :: nat where
  "MAX_FILE_SIZE = 10 * 1024 * 1024"

definition SUPPORTED_FORMATS :: "string set" where
  "SUPPORTED_FORMATS = {''image/jpeg'', ''image/jpg'', ''image/png'', ''image/webp''}"

text \<open>
  What \<^verbatim>\<open>Image.open(io.BytesIO(file_content))\<close> followed by \<^verbatim>\<open>img.verify()\<close> does:
  it passes, or it raises an exception \<open>e\<close> whose \<^verbatim>\<open>str(e)\<close> is kept.
\<close>

datatype verify_outcome = Verified | Raised string

text \<open>\<^verbatim>\<open>', '.join(...)\<close>.\<close>

fun join :: "string \<Rightarrow> string list \<Rightarrow> string" where
  "join sep [] = []"
| "join sep [s] = s"
| "join sep (s # t # rest) = s @ sep @ join sep (t # rest)"

text \<open>
  \<^verbatim>\<open>validate_image\<close>. The decoder is the parameter \<open>pil_verify\<close>; \<open>formats_order\<close> is
  the order in which Python iterates over the set \<^verbatim>\<open>SUPPORTED_FORMATS\<close>, which the
  language leaves open. The \<^verbatim>\<open>try\<close> / \<^verbatim>\<open>except Exception\<close> is the case distinction
  on the decoder's outcome.
\<close>

definition validate_image ::
  "(byte list \<Rightarrow> verify_outcome) \<Rightarrow> string list \<Rightarrow> byte list \<Rightarrow> string \<Rightarrow> bool \<times> string" where
  "validate_image pil_verify formats_order file_content content_type =
     (if length file_content > MAX_FILE_SIZE then (False, ''File size exceeds 10MB limit'')
      else if content_type \<notin> SUPPORTED_FORMATS
        then (False, ''Unsupported format. Use: '' @ join '', '' formats_order)
      else (case pil_verify file_content of
              Verified \<Rightarrow> (True, '''')
            | Raised e \<Rightarrow> (False, ''Invalid image file: '' @ e)))"

text \<open>
  \<^verbatim>\<open>resize_if_needed\<close>. \<^verbatim>\<open>max_dimension / max(height, width)\<close> divides two integers
  and rounds the exact quotient once; \<^verbatim>\<open>width * scale\<close> converts the integer and
  rounds the product. \<^verbatim>\<open>cv2.resize\<close> is the parameter \<open>cv_resize\<close>, called with the
  image and \<^verbatim>\<open>(new_width, new_height)\<close>; it may raise.
\<close>

definition resize_if_needed ::
  "(real \<Rightarrow> real) \<Rightarrow> ('px grid \<Rightarrow> int \<times> int \<Rightarrow> py_error + 'px grid)
     \<Rightarrow> 'px grid \<Rightarrow> int \<Rightarrow> py_error + 'px grid" where
  "resize_if_needed fl cv_resize img max_dimension =
     (case shape img of (height, width) \<Rightarrow>
        if max height width > max_dimension then
          (if max height width = 0 then Inl ZeroDivisionError
           else
             let scale = fl (real_of_int max_dimension / real_of_int (max height width));
                 new_width = py_int (fl (py_float fl width * scale));
                 new_height = py_int (fl (py_float fl height * scale))
             in cv_resize img (new_width, new_height))
        else Inr img)"

section \<open>Plate detection: \<^verbatim>\<open>utils/plate_detector.py\<close>\<close>

text \<open>
  A box is \<^verbatim>\<open>(x, y, w, h)\<close>, a contour is its list of points. The OpenCV functions
  the detector calls are parameters, collected in a record:
  \<^item> \<open>detectMultiScale\<close> is the grey conversion followed by
    \<^verbatim>\<open>self.plate_cascade.detectMultiScale\<close> with its fixed arguments;
  \<^item> \<open>findContours\<close> is the chain from \<^verbatim>\<open>cv2.cvtColor\<close> over
    \<^verbatim>\<open>cv2.bilateralFilter\<close> and \<^verbatim>\<open>cv2.Canny\<close> to \<^verbatim>\<open>cv2.findContours\<close>;
  \<^item> \<open>contourArea\<close>, \<open>arcLength\<close> (of the closed contour), \<open>approxPolyDP\<close> (of the
    closed contour, with the given tolerance) and \<open>boundingRect\<close> are the functions of
    the same names.
\<close>

type_synonym box = "int \<times> int \<times> int \<times> int"

type_synonym contour = "(int \<times> int) list"

record 'px opencv =
  detectMultiScale :: "'px grid \<Rightarrow> box list"
  findContours :: "'px grid \<Rightarrow> contour list"
  contourArea :: "contour \<Rightarrow> real"
  arcLength :: "contour \<Rightarrow> real"
  approxPolyDP :: "contour \<Rightarrow> real \<Rightarrow> contour"
  boundingRect :: "contour \<Rightarrow> box"

text \<open>\<^verbatim>\<open>detect_plates\<close>: \<^verbatim>\<open>plates.tolist() if len(plates) > 0 else []\<close>.\<close>

definition detect_plates :: "'px opencv \<Rightarrow> 'px grid \<Rightarrow> box list" where
  "detect_plates cv img =
     (let plates = detectMultiScale cv img in if length plates > 0 then plates else [])"

text \<open>
  The loop of \<^verbatim>\<open>detect_plates_contour_method\<close> over the contours kept, with the list
  \<^verbatim>\<open>plates\<close> it appends to. \<^verbatim>\<open>0.02 * peri\<close> and \<^verbatim>\<open>w / float(h)\<close> are double
  operations; the division raises when \<^verbatim>\<open>float(h)\<close> is zero.
\<close>

fun plates_loop ::
  "'px opencv \<Rightarrow> (real \<Rightarrow> real) \<Rightarrow> contour list \<Rightarrow> box list \<Rightarrow> py_error + box list" where
  "plates_loop cv fl [] plates = Inr plates"
| "plates_loop cv fl (contour # rest) plates =
     (let peri = arcLength cv contour;
          approx = approxPolyDP cv contour (fl (fl (2 / 100) * peri))
      in if length approx = 4 then
           (case boundingRect cv approx of (x, y, w, h) \<Rightarrow>
              if py_float fl h = 0 then Inl ZeroDivisionError
              else
                let aspect_ratio = fl (py_float fl w / py_float fl h)
                in if 2 \<le> aspect_ratio \<and> aspect_ratio \<le> 5
                   then plates_loop cv fl rest (plates @ [(x, y, w, h)])
                   else plates_loop cv fl rest plates)
         else plates_loop cv fl rest plates)"

definition detect_plates_contour_method ::
  "'px opencv \<Rightarrow> (real \<Rightarrow> real) \<Rightarrow> 'px grid \<Rightarrow> py_error + box list" where
  "detect_plates_contour_method cv fl img =
     (let contours = findContours cv img;
          contours = take 10 (py_sorted_reverse (contourArea cv) contours)
      in plates_loop cv fl contours [])"

text \<open>The sort key of \<^verbatim>\<open>get_best_plate\<close>, \<^verbatim>\<open>lambda p: p[2] * p[3]\<close>.\<close>

definition box_area :: "box \<Rightarrow> int" where
  "box_area p = (case p of (x, y, w, h) \<Rightarrow> w * h)"

text \<open>The two-dimensional slice \<^verbatim>\<open>img[y1:y2, x1:x2]\<close>.\<close>

definition crop :: "'px grid \<Rightarrow> int \<Rightarrow> int \<Rightarrow> int \<Rightarrow> int \<Rightarrow> 'px grid" where
  "crop img y1 y2 x1 x2 = map (\<lambda>row. py_slice row x1 x2) (py_slice img y1 y2)"

text \<open>
  \<^verbatim>\<open>get_best_plate\<close>. The calls to the two detectors are its only effects; the model
  returns them, in order, beside the result.
\<close>

datatype detector_call = Classifier | Geometry

definition get_best_plate ::
  "'px opencv \<Rightarrow> (real \<Rightarrow> real) \<Rightarrow> 'px grid
     \<Rightarrow> detector_call list \<times> (py_error + ('px grid \<times> box) option)" where
  "get_best_plate cv fl img =
     (let plates = detect_plates cv img;
          (calls, plates) =
            (if plates = [] then ([Classifier, Geometry], detect_plates_contour_method cv fl img)
             else ([Classifier], Inr plates))
      in (calls,
          case plates of
            Inl e \<Rightarrow> Inl e
          | Inr plates \<Rightarrow>
              if plates = [] then Inr None
              else
                (case py_sorted_reverse box_area plates of
                   [] \<Rightarrow> Inl IndexError
                 | (x, y, w, h) # _ \<Rightarrow>
                     let padding = 5;
                         y1 = max 0 (y - padding);
                         y2 = min (fst (shape img)) (y + h + padding);
                         x1 = max 0 (x - padding);
                         x2 = min (snd (shape img)) (x + w + padding);
                         plate_img = crop img y1 y2 x1 x2
                     in Inr (Some (plate_img, (x, y, w, h))))))"

section \<open>Predicates used to state the properties\<close>

text \<open>
  \<open>first_max_at key xs i\<close>: position \<open>i\<close> holds a greatest key of \<open>xs\<close> and every
  earlier position holds a strictly smaller one. At most one position satisfies it.
\<close>

definition first_max_at :: "('a \<Rightarrow> 'k::linorder) \<Rightarrow> 'a list \<Rightarrow> nat \<Rightarrow> bool" where
  "first_max_at key xs i \<longleftrightarrow>
     i < length xs \<and> (\<forall>j<length xs. key (xs ! j) \<le> key (xs ! i))
     \<and> (\<forall>j<i. key (xs ! j) < key (xs ! i))"


text \<open>
  The candidates that pass the length filter of \<open>extract_plate_number\<close>, in input
  order and with their raw texts.
\<close>

definition plate_length :: "(py_str \<Rightarrow> py_str) \<Rightarrow> py_str \<Rightarrow> bool" where
  "plate_length upper text \<longleftrightarrow>
     4 \<le> length (cleaned upper text) \<and> length (cleaned upper text) \<le> 10"

definition survivors ::
  "(py_str \<Rightarrow> py_str) \<Rightarrow> (py_str \<times> real) list \<Rightarrow> (py_str \<times> real) list" where
  "survivors upper results = filter (\<lambda>r. plate_length upper (fst r)) results"

text \<open>
  Stand-ins for \<^verbatim>\<open>str.upper\<close> and \<^verbatim>\<open>str.strip\<close> on which the theorems are
  instantiated. On a text whose code points are all below 128 they return what Python
  returns: \<open>a\<close>..\<open>z\<close> become \<open>A\<close>..\<open>Z\<close>, and the leading and trailing code points 9 to
  13 and 28 to 32 are removed. They are used on such texts only. \<open>codes\<close> gives the
  code points of an ASCII literal.
\<close>

definition ascii_upper :: "py_str \<Rightarrow> py_str" where
  "ascii_upper s = map (\<lambda>c. if 97 \<le> c \<and> c \<le> 122 then c - 32 else c) s"

definition ascii_space :: "nat \<Rightarrow> bool" where
  "ascii_space c = ((9 \<le> c \<and> c \<le> 13) \<or> (28 \<le> c \<and> c \<le> 32))"

definition ascii_strip :: "py_str \<Rightarrow> py_str" where
  "ascii_strip s = rev (dropWhile ascii_space (rev (dropWhile ascii_space s)))"

definition codes :: "string \<Rightarrow> py_str" where
  "codes s = map of_char s"

text \<open>
  The standard model of double-precision rounding: on zero and on the range of the
  normal doubles the rounded value is within a relative error of \<open>2\<^sup>-\<^sup>5\<^sup>3\<close> of the exact
  one. Only non-negative numbers are rounded by the functions modelled here.
\<close>

definition rounds_like_double :: "(real \<Rightarrow> real) \<Rightarrow> bool" where
  "rounds_like_double fl \<longleftrightarrow>
     (\<forall>x. x = 0 \<or> (1 / 2 ^ 1022 \<le> x \<and> x \<le> 2 ^ 1023) \<longrightarrow> \<bar>fl x - x\<bar> \<le> x / 2 ^ 53)"

text \<open>
  What is assumed of \<^verbatim>\<open>cv2.resize\<close>: when it returns, the result has the number of
  rows and of columns it was asked for.
\<close>

definition resizes_to_size :: "('px grid \<Rightarrow> int \<times> int \<Rightarrow> py_error + 'px grid) \<Rightarrow> bool" where
  "resizes_to_size cv_resize \<longleftrightarrow>
     (\<forall>img w h r. cv_resize img (w, h) = Inr r \<longrightarrow> shape r = (h, w))"

text \<open>Calling \<open>resize_if_needed\<close> on its own result; an exception of the first call ends both.\<close>

definition resize_twice ::
  "(real \<Rightarrow> real) \<Rightarrow> ('px grid \<Rightarrow> int \<times> int \<Rightarrow> py_error + 'px grid)
     \<Rightarrow> 'px grid \<Rightarrow> int \<Rightarrow> py_error + 'px grid" where
  "resize_twice fl cv_resize img max_dimension =
     (case resize_if_needed fl cv_resize img max_dimension of
        Inl e \<Rightarrow> Inl e
      | Inr r \<Rightarrow> resize_if_needed fl cv_resize r max_dimension)"

text \<open>
  A stand-in for \<^verbatim>\<open>cv2.resize\<close> on which the theorems are instantiated: it returns a
  blank image of the requested size and raises when a side is not positive.
\<close>

definition blank_resize :: "nat grid \<Rightarrow> int \<times> int \<Rightarrow> py_error + nat grid" where
  "blank_resize img dsize =
     (case dsize of (w, h) \<Rightarrow>
        if 0 < w \<and> 0 < h then Inr (replicate (nat h) (replicate (nat w) 0)) else Inl CvError)"

text \<open>The boxes of the detector path that \<open>get_best_plate\<close> takes on an image.\<close>

definition executed_boxes ::
  "'px opencv \<Rightarrow> (real \<Rightarrow> real) \<Rightarrow> 'px grid \<Rightarrow> py_error + box list" where
  "executed_boxes cv fl img =
     (if detect_plates cv img = [] then detect_plates_contour_method cv fl img
      else Inr (detect_plates cv img))"

text \<open>
  The polygon that the contour loop approximates a contour by, and the aspect ratio it
  computes for a box.
\<close>

definition approx_of :: "'px opencv \<Rightarrow> (real \<Rightarrow> real) \<Rightarrow> contour \<Rightarrow> contour" where
  "approx_of cv fl c = approxPolyDP cv c (fl (fl (2 / 100) * arcLength cv c))"

definition aspect_ratio_of :: "(real \<Rightarrow> real) \<Rightarrow> box \<Rightarrow> real" where
  "aspect_ratio_of fl p = (case p of (x, y, w, h) \<Rightarrow> fl (py_float fl w / py_float fl h))"

definition plate_like :: "'px opencv \<Rightarrow> (real \<Rightarrow> real) \<Rightarrow> contour \<Rightarrow> bool" where
  "plate_like cv fl c \<longleftrightarrow>
     length (approx_of cv fl c) = 4
     \<and> 2 \<le> aspect_ratio_of fl (boundingRect cv (approx_of cv fl c))
     \<and> aspect_ratio_of fl (boundingRect cv (approx_of cv fl c)) \<le> 5"

text \<open>
  Stand-ins for the OpenCV functions on which the theorems are instantiated: the
  classifier returns a given list of boxes, the contour finder a given list of contours,
  a contour is approximated by itself, its bounding rectangle is the one of its points
  and its area is the area of that rectangle. \<open>demo_img\<close> is a \<open>14 \<times> 12\<close> image whose
  pixel in row \<open>r\<close> and column \<open>c\<close> is \<open>100 * r + c\<close>.
\<close>

fun points_rect :: "contour \<Rightarrow> box" where
  "points_rect [] = (0, 0, 0, 0)"
| "points_rect ((px, py) # ps) =
     (let x0 = fold min (map fst ps) px; x1 = fold max (map fst ps) px;
          y0 = fold min (map snd ps) py; y1 = fold max (map snd ps) py
      in (x0, y0, x1 - x0 + 1, y1 - y0 + 1))"

definition demo_cv :: "box list \<Rightarrow> contour list \<Rightarrow> nat opencv" where
  "demo_cv boxes contours =
     \<lparr>detectMultiScale = (\<lambda>img. boxes),
      findContours = (\<lambda>img. contours),
      contourArea = (\<lambda>c. real_of_int (box_area (points_rect c))),
      arcLength = (\<lambda>c. real (length c)),
      approxPolyDP = (\<lambda>c eps. c),
      boundingRect = points_rect\<rparr>"

definition demo_img :: "nat grid" where
  "demo_img = map (\<lambda>r. map (\<lambda>c. 100 * r + c) [0..<14]) [0..<12]"

definition demo_contours :: "contour list" where
  "demo_contours =
     [[(0, 0), (9, 0), (9, 3), (0, 3)],
      [(0, 0), (2, 0), (2, 2), (0, 2)],
      [(1, 1), (20, 1), (20, 5)],
      [(5, 5), (24, 5), (24, 9), (5, 9)]]"

section \<open>Properties of the Python primitives\<close>

lemma first_max_at_unique:
  assumes "first_max_at key xs i" and "first_max_at key xs j"
  shows "i = j"
proof (rule ccontr)
  assume "i \<noteq> j"
  then consider "i < j" | "j < i" by linarith
  then show False
  proof cases
    case 1
    then have "key (xs ! i) < key (xs ! j)" using assms(2) by (simp add: first_max_at_def)
    moreover have "key (xs ! j) \<le> key (xs ! i)" using assms by (simp add: first_max_at_def)
    ultimately show False by simp
  next
    case 2
    then have "key (xs ! j) < key (xs ! i)" using assms(1) by (simp add: first_max_at_def)
    moreover have "key (xs ! i) \<le> key (xs ! j)" using assms by (simp add: first_max_at_def)
    ultimately show False by simp
  qed
qed

lemma py_max_from_spec:
  "(py_max_from key best xs = best \<and> (\<forall>x\<in>set xs. key x \<le> key best))
   \<or> (\<exists>i<length xs. py_max_from key best xs = xs ! i \<and> key best < key (xs ! i)
          \<and> (\<forall>j<length xs. key (xs ! j) \<le> key (xs ! i))
          \<and> (\<forall>j<i. key (xs ! j) < key (xs ! i)))"
proof (induction xs arbitrary: best)
  case Nil
  then show ?case by simp
next
  case (Cons x xs)
  show ?case
  proof (cases "key best < key x")
    case True
    from Cons.IH[of x] show ?thesis
    proof
      assume a: "py_max_from key x xs = x \<and> (\<forall>y\<in>set xs. key y \<le> key x)"
      have "py_max_from key best (x # xs) = (x # xs) ! 0" using True a by simp
      moreover have "\<forall>j<length (x # xs). key ((x # xs) ! j) \<le> key ((x # xs) ! 0)"
        using a by (auto simp: nth_Cons split: nat.splits)
      ultimately show ?thesis using True by (intro disjI2 exI[of _ 0]) simp
    next
      assume "\<exists>i<length xs. py_max_from key x xs = xs ! i \<and> key x < key (xs ! i)
          \<and> (\<forall>j<length xs. key (xs ! j) \<le> key (xs ! i))
          \<and> (\<forall>j<i. key (xs ! j) < key (xs ! i))"
      then obtain i where i: "i < length xs" "py_max_from key x xs = xs ! i"
         "key x < key (xs ! i)" "\<forall>j<length xs. key (xs ! j) \<le> key (xs ! i)"
         "\<forall>j<i. key (xs ! j) < key (xs ! i)" by blast
      have 1: "py_max_from key best (x # xs) = (x # xs) ! Suc i" using True i by simp
      have 2: "key best < key ((x # xs) ! Suc i)" using True i by (simp add: less_trans)
      have 3: "\<forall>j<length (x # xs). key ((x # xs) ! j) \<le> key ((x # xs) ! Suc i)"
        using i by (auto simp: nth_Cons split: nat.splits)
      have 4: "\<forall>j<Suc i. key ((x # xs) ! j) < key ((x # xs) ! Suc i)"
        using i by (auto simp: nth_Cons split: nat.splits)
      show ?thesis using i(1) 1 2 3 4 by (intro disjI2 exI[of _ "Suc i"]) simp
    qed
  next
    case False
    from Cons.IH[of best] show ?thesis
    proof
      assume a: "py_max_from key best xs = best \<and> (\<forall>y\<in>set xs. key y \<le> key best)"
      then show ?thesis using False by auto
    next
      assume "\<exists>i<length xs. py_max_from key best xs = xs ! i \<and> key best < key (xs ! i)
          \<and> (\<forall>j<length xs. key (xs ! j) \<le> key (xs ! i))
          \<and> (\<forall>j<i. key (xs ! j) < key (xs ! i))"
      then obtain i where i: "i < length xs" "py_max_from key best xs = xs ! i"
         "key best < key (xs ! i)" "\<forall>j<length xs. key (xs ! j) \<le> key (xs ! i)"
         "\<forall>j<i. key (xs ! j) < key (xs ! i)" by blast
      have 1: "py_max_from key best (x # xs) = (x # xs) ! Suc i" using False i by simp
      have 2: "key best < key ((x # xs) ! Suc i)" using i by simp
      have 3: "\<forall>j<length (x # xs). key ((x # xs) ! j) \<le> key ((x # xs) ! Suc i)"
        using i False by (auto simp: nth_Cons split: nat.splits)
      have 4: "\<forall>j<Suc i. key ((x # xs) ! j) < key ((x # xs) ! Suc i)"
        using i False by (auto simp: nth_Cons split: nat.splits)
      show ?thesis using i(1) 1 2 3 4 by (intro disjI2 exI[of _ "Suc i"]) simp
    qed
  qed
qed

lemma py_max_first_max:
  assumes "xs \<noteq> []"
  shows "\<exists>i. first_max_at key xs i \<and> py_max key xs = Inr (xs ! i)"
proof -
  from assms obtain b rest where xs: "xs = b # rest" by (cases xs) auto
  from py_max_from_spec[of key b rest] show ?thesis
  proof
    assume a: "py_max_from key b rest = b \<and> (\<forall>x\<in>set rest. key x \<le> key b)"
    have "first_max_at key xs 0"
      using a xs by (auto simp: first_max_at_def nth_Cons split: nat.splits)
    moreover have "py_max key xs = Inr (xs ! 0)" using a xs by simp
    ultimately show ?thesis by blast
  next
    assume "\<exists>i<length rest. py_max_from key b rest = rest ! i \<and> key b < key (rest ! i)
          \<and> (\<forall>j<length rest. key (rest ! j) \<le> key (rest ! i))
          \<and> (\<forall>j<i. key (rest ! j) < key (rest ! i))"
    then obtain i where i: "i < length rest" "py_max_from key b rest = rest ! i"
         "key b < key (rest ! i)" "\<forall>j<length rest. key (rest ! j) \<le> key (rest ! i)"
         "\<forall>j<i. key (rest ! j) < key (rest ! i)" by blast
    have "first_max_at key xs (Suc i)" using i xs
      by (auto simp: first_max_at_def nth_Cons split: nat.splits)
    moreover have "py_max key xs = Inr (xs ! Suc i)" using i xs by simp
    ultimately show ?thesis by blast
  qed
qed

lemma py_sorted_reverse_mset: "mset (py_sorted_reverse key xs) = mset xs"
  by (simp add: py_sorted_reverse_def)

lemma py_sorted_reverse_sorted:
  "sorted_wrt (\<lambda>a b. key b \<le> key a) (py_sorted_reverse key xs)"
proof -
  have "sorted (map key (sort_key key (rev xs)))" by (rule sorted_sort_key)
  then have "sorted_wrt (\<lambda>a b. key a \<le> key b) (sort_key key (rev xs))"
    by (simp add: sorted_map)
  then show ?thesis by (simp add: py_sorted_reverse_def sorted_wrt_rev)
qed

lemma hd_filter_index:
  assumes "filter P xs \<noteq> []"
  shows "\<exists>i<length xs. hd (filter P xs) = xs ! i \<and> P (xs ! i) \<and> (\<forall>j<i. \<not> P (xs ! j))"
  using assms
proof (induction xs)
  case Nil
  then show ?case by simp
next
  case (Cons x xs)
  show ?case
  proof (cases "P x")
    case True
    then have "hd (filter P (x # xs)) = (x # xs) ! 0 \<and> P ((x # xs) ! 0)" by simp
    then show ?thesis by (intro exI[of _ 0]) simp
  next
    case False
    then have "filter P xs \<noteq> []" using Cons.prems by simp
    from Cons.IH[OF this] obtain i where
      i: "i < length xs" "hd (filter P xs) = xs ! i" "P (xs ! i)" "\<forall>j<i. \<not> P (xs ! j)" by blast
    have "\<forall>j<Suc i. \<not> P ((x # xs) ! j)"
      using i(4) False by (auto simp: nth_Cons split: nat.splits)
    then show ?thesis using i False by (intro exI[of _ "Suc i"]) simp
  qed
qed

lemma last_filter_keep:
  assumes "xs \<noteq> []" and "P (last xs)"
  shows "last (filter P xs) = last xs"
  using assms by (induction xs) (auto simp: filter_empty_conv)

lemma sorted_key_le_last:
  assumes "sorted (map key ys)" and "y \<in> set ys"
  shows "key y \<le> key (last ys)"
proof -
  from assms(2) obtain i where i: "i < length ys" "ys ! i = y" by (auto simp: in_set_conv_nth)
  then have ne: "ys \<noteq> []" by auto
  have "map key ys ! i \<le> map key ys ! (length ys - 1)"
    using assms(1) i(1) by (intro sorted_nth_mono) simp_all
  then show ?thesis using i ne by (simp add: last_conv_nth)
qed

lemma py_sorted_reverse_first:
  assumes "xs \<noteq> []"
  shows "\<exists>i rest. first_max_at key xs i \<and> py_sorted_reverse key xs = xs ! i # rest"
proof -
  define ys where "ys = sort_key key (rev xs)"
  define r where "r = last ys"
  define P where "P = (\<lambda>y. key y = key r)"
  have ne: "ys \<noteq> []" using assms by (metis ys_def length_sort length_rev length_0_conv)
  have srt: "sorted (map key ys)" unfolding ys_def by (rule sorted_sort_key)
  have le: "\<forall>y\<in>set xs. key y \<le> key r"
    unfolding r_def using sorted_key_le_last[OF srt] by (simp add: ys_def)
  have "filter P ys = rev (filter P xs)"
    unfolding P_def ys_def by (simp add: sort_key_stable rev_filter)
  moreover have "last (filter P ys) = r"
    unfolding r_def using last_filter_keep[OF ne, of P] by (simp add: P_def r_def)
  moreover have fne: "filter P xs \<noteq> []"
  proof -
    have "r \<in> set ys" unfolding r_def using ne by simp
    then have "r \<in> set xs" by (simp add: ys_def)
    then show ?thesis by (auto simp: filter_empty_conv P_def)
  qed
  ultimately have "hd (filter P xs) = r" by (simp add: last_rev)
  with hd_filter_index[OF fne] obtain i where
    i: "i < length xs" "xs ! i = r" "\<forall>j<i. \<not> P (xs ! j)" by auto
  have "first_max_at key xs i"
    unfolding first_max_at_def
  proof (intro conjI allI impI)
    show "i < length xs" by (rule i(1))
  next
    fix j assume "j < length xs"
    then show "key (xs ! j) \<le> key (xs ! i)" using le i(2) by simp
  next
    fix j assume j: "j < i"
    then have "key (xs ! j) \<noteq> key r" using i(3) by (simp add: P_def)
    moreover have "key (xs ! j) \<le> key r" using le j i(1) by simp
    ultimately show "key (xs ! j) < key (xs ! i)" using i(2) by simp
  qed
  moreover have "py_sorted_reverse key xs = xs ! i # rev (butlast ys)"
    using ne i(2) unfolding py_sorted_reverse_def ys_def[symmetric] r_def
    by (metis append_butlast_last_id rev.simps(2) rev_append rev_rev_ident append_Cons append_Nil rev_singleton_conv)
  ultimately show ?thesis by blast
qed

lemma py_slice_nonneg:
  assumes "0 \<le> a" and "0 \<le> b" and "b \<le> int (length xs)"
  shows "length (py_slice xs a b) = nat (b - a)"
    and "i < nat (b - a) \<Longrightarrow> py_slice xs a b ! i = xs ! (nat a + i)"
proof -
  have lo: "py_slice_bound (length xs) a = min (length xs) (nat a)"
    using assms(1) by (simp add: py_slice_bound_def)
  have hi: "py_slice_bound (length xs) b = nat b"
    using assms(2,3) by (simp add: py_slice_bound_def)
  have eq: "py_slice xs a b = take (nat b - min (length xs) (nat a)) (drop (min (length xs) (nat a)) xs)"
    by (simp add: py_slice_def Let_def lo hi)
  show "length (py_slice xs a b) = nat (b - a)"
    unfolding eq using assms by (simp add: min_def) linarith
  show "py_slice xs a b ! i = xs ! (nat a + i)" if "i < nat (b - a)"
  proof -
    from that assms have "nat a \<le> length xs" by linarith
    then have m: "min (length xs) (nat a) = nat a" by simp
    have "i < nat b - nat a" using that assms by linarith
    then show ?thesis unfolding eq m using assms \<open>nat a \<le> length xs\<close> by simp
  qed
qed

section \<open>Candidate selection\<close>

lemma cleaned_results_survivors:
  "cleaned_results upper results
     = map (\<lambda>r. (cleaned upper (fst r), snd r)) (survivors upper results)"
  by (induction upper results rule: cleaned_results.induct)
     (auto simp: survivors_def plate_length_def)

lemma cleaned_results_Nil_iff:
  "cleaned_results upper results = [] \<longleftrightarrow> (\<forall>r\<in>set results. \<not> plate_length upper (fst r))"
  by (simp add: cleaned_results_survivors survivors_def filter_empty_conv)

lemma first_max_at_map:
  assumes "\<And>x. key' (f x) = key x"
  shows "first_max_at key' (map f xs) i \<longleftrightarrow> first_max_at key xs i"
  using assms by (auto simp: first_max_at_def)

text \<open>
  C1, as the code has it, for every \<^verbatim>\<open>str.upper\<close> and \<^verbatim>\<open>str.strip\<close>.
  \<open>extract_plate_number\<close> never raises; it returns \<open>None\<close> exactly for the empty
  candidate list, and a pair for every other list. When some candidate's cleaned text
  has 4 to 10 characters, the returned string has 4 to 10 characters. Otherwise it is
  the stripped, upper-cased raw text of the first candidate of greatest confidence, and
  it is empty exactly when that text is empty.
\<close>

theorem extract_plate_number_some:
  "(extract_plate_number upper strip results = Inr None \<longleftrightarrow> results = [])
   \<and> (results \<noteq> [] \<longrightarrow>
        (\<exists>s c i. extract_plate_number upper strip results = Inr (Some (s, c))
           \<and> first_max_at snd results i
           \<and> ((\<exists>r\<in>set results. 4 \<le> length (cleaned upper (fst r))
                                  \<and> length (cleaned upper (fst r)) \<le> 10)
                \<longrightarrow> 4 \<le> length s \<and> length s \<le> 10)
           \<and> ((\<forall>r\<in>set results. length (cleaned upper (fst r)) < 4
                                  \<or> 10 < length (cleaned upper (fst r)))
                \<longrightarrow> s = upper (strip (fst (results ! i))) \<and> c = snd (results ! i))
           \<and> (length s = 0 \<longleftrightarrow>
                (\<forall>r\<in>set results. length (cleaned upper (fst r)) < 4
                                  \<or> 10 < length (cleaned upper (fst r)))
                \<and> upper (strip (fst (results ! i))) = [])))"
proof (cases "results = []")
  case True
  then show ?thesis by (simp add: extract_plate_number_def)
next
  case False
  from py_max_first_max[OF False, of snd] obtain i where
    i: "first_max_at snd results i" "py_max snd results = Inr (results ! i)" by blast
  have none_iff: "cleaned_results upper results = []
      \<longleftrightarrow> (\<forall>r\<in>set results. length (cleaned upper (fst r)) < 4
                                  \<or> 10 < length (cleaned upper (fst r)))"
    by (auto simp: cleaned_results_Nil_iff plate_length_def not_le)
  have some_iff: "cleaned_results upper results \<noteq> []
      \<longleftrightarrow> (\<exists>r\<in>set results. 4 \<le> length (cleaned upper (fst r))
                                  \<and> length (cleaned upper (fst r)) \<le> 10)"
    by (auto simp: cleaned_results_Nil_iff plate_length_def)
  show ?thesis
  proof (cases "cleaned_results upper results = []")
    case True
    have eq: "extract_plate_number upper strip results =
                Inr (Some (upper (strip (fst (results ! i))), snd (results ! i)))"
      using False True i(2) by (simp add: extract_plate_number_def split: prod.splits)
    have a: "\<forall>r\<in>set results. length (cleaned upper (fst r)) < 4
                                  \<or> 10 < length (cleaned upper (fst r))"
      using True none_iff by blast
    have b: "\<not> (\<exists>r\<in>set results. 4 \<le> length (cleaned upper (fst r))
                                  \<and> length (cleaned upper (fst r)) \<le> 10)"
      using True some_iff by blast
    have "\<exists>s c i. extract_plate_number upper strip results = Inr (Some (s, c))
           \<and> first_max_at snd results i
           \<and> ((\<exists>r\<in>set results. 4 \<le> length (cleaned upper (fst r))
                                  \<and> length (cleaned upper (fst r)) \<le> 10)
                \<longrightarrow> 4 \<le> length s \<and> length s \<le> 10)
           \<and> ((\<forall>r\<in>set results. length (cleaned upper (fst r)) < 4
                                  \<or> 10 < length (cleaned upper (fst r)))
                \<longrightarrow> s = upper (strip (fst (results ! i))) \<and> c = snd (results ! i))
           \<and> (length s = 0 \<longleftrightarrow>
                (\<forall>r\<in>set results. length (cleaned upper (fst r)) < 4
                                  \<or> 10 < length (cleaned upper (fst r)))
                \<and> upper (strip (fst (results ! i))) = [])"
      by (rule exI[of _ "upper (strip (fst (results ! i)))"], rule exI[of _ "snd (results ! i)"],
          rule exI[of _ i]) (use eq i(1) a b in auto)
    moreover have "extract_plate_number upper strip results \<noteq> Inr None"
      using eq by simp
    ultimately show ?thesis using False by blast
  next
    case ne: False
    from py_max_first_max[OF ne, of snd] obtain k where
      k: "first_max_at snd (cleaned_results upper results) k"
         "py_max snd (cleaned_results upper results) = Inr (cleaned_results upper results ! k)"
      by blast
    have kl: "k < length (survivors upper results)"
      using k(1) by (simp add: first_max_at_def cleaned_results_survivors)
    then have "survivors upper results ! k \<in> set (survivors upper results)" by simp
    then have pl: "plate_length upper (fst (survivors upper results ! k))"
      by (simp add: survivors_def)
    define s where "s = cleaned upper (fst (survivors upper results ! k))"
    have eq: "extract_plate_number upper strip results =
             Inr (Some (s, snd (survivors upper results ! k)))"
      using False ne k(2) kl
      by (simp add: extract_plate_number_def cleaned_results_survivors s_def)
    have len: "4 \<le> length s" "length s \<le> 10" using pl by (simp_all add: plate_length_def s_def)
    have a: "\<not> (\<forall>r\<in>set results. length (cleaned upper (fst r)) < 4
                                  \<or> 10 < length (cleaned upper (fst r)))"
      using ne none_iff by blast
    have "\<exists>s c i. extract_plate_number upper strip results = Inr (Some (s, c))
           \<and> first_max_at snd results i
           \<and> ((\<exists>r\<in>set results. 4 \<le> length (cleaned upper (fst r))
                                  \<and> length (cleaned upper (fst r)) \<le> 10)
                \<longrightarrow> 4 \<le> length s \<and> length s \<le> 10)
           \<and> ((\<forall>r\<in>set results. length (cleaned upper (fst r)) < 4
                                  \<or> 10 < length (cleaned upper (fst r)))
                \<longrightarrow> s = upper (strip (fst (results ! i))) \<and> c = snd (results ! i))
           \<and> (length s = 0 \<longleftrightarrow>
                (\<forall>r\<in>set results. length (cleaned upper (fst r)) < 4
                                  \<or> 10 < length (cleaned upper (fst r)))
                \<and> upper (strip (fst (results ! i))) = [])"
      by (rule exI[of _ s], rule exI[of _ "snd (survivors upper results ! k)"],
          rule exI[of _ i]) (use eq i(1) a len in auto)
    moreover have "extract_plate_number upper strip results \<noteq> Inr None"
      using eq by simp
    ultimately show ?thesis using False by blast
  qed
qed

text \<open>
  The theorem at the one-candidate list \<^verbatim>\<open>[(" x ", 0.5)]\<close>, an ASCII text: the
  fallback returns \<^verbatim>\<open>("X", 0.5)\<close>.
\<close>

theorem extract_plate_number_some_witness:
  "[(codes '' x '', 1/2 :: real)] \<noteq> []
   \<and> extract_plate_number ascii_upper ascii_strip [(codes '' x '', 1/2)]
        = Inr (Some (codes ''X'', 1/2))
   \<and> (\<exists>s c i. extract_plate_number ascii_upper ascii_strip [(codes '' x '', 1/2)]
                  = Inr (Some (s, c))
           \<and> first_max_at snd [(codes '' x '', 1/2 :: real)] i
           \<and> s = ascii_upper (ascii_strip (fst ([(codes '' x '', 1/2 :: real)] ! i)))
           \<and> length s \<noteq> 0)"
proof -
  let ?rs = "[(codes '' x '', 1/2 :: real)]"
  have v: "extract_plate_number ascii_upper ascii_strip ?rs = Inr (Some (codes ''X'', 1/2))"
    by code_simp
  have f: "list_all (\<lambda>r. length (cleaned ascii_upper (fst r)) < 4
                          \<or> 10 < length (cleaned ascii_upper (fst r))) ?rs"
    by code_simp
  then have f': "\<forall>r\<in>set ?rs. length (cleaned ascii_upper (fst r)) < 4
                          \<or> 10 < length (cleaned ascii_upper (fst r))"
    unfolding list_all_iff .
  have ne: "?rs \<noteq> []" by simp
  from extract_plate_number_some[of ascii_upper ascii_strip ?rs, THEN conjunct2, rule_format, OF ne]
  obtain s c i where
    r: "extract_plate_number ascii_upper ascii_strip ?rs = Inr (Some (s, c))"
       "first_max_at snd ?rs i"
       "(\<forall>r\<in>set ?rs. length (cleaned ascii_upper (fst r)) < 4
                          \<or> 10 < length (cleaned ascii_upper (fst r)))
          \<longrightarrow> s = ascii_upper (ascii_strip (fst (?rs ! i))) \<and> c = snd (?rs ! i)"
    by (elim exE conjE) (rule that)
  from r(1) v have s: "s = codes ''X''" by simp
  have "codes ''X'' \<noteq> []" by (simp add: codes_def)
  then have l: "length s \<noteq> 0" using s by simp
  from r(3) f' have e: "s = ascii_upper (ascii_strip (fst (?rs ! i)))" by blast
  show ?thesis
    by (intro conjI, rule ne, rule v, rule exI[of _ s], rule exI[of _ c], rule exI[of _ i],
        intro conjI) (rule r(1) r(2) e l)+
qed

text \<open>
  C1 as stated fails: the single candidate \<^verbatim>\<open>(" ", 0.5)\<close> (one space, code point 32)
  is cleaned to the empty string, is dropped by the filter, and the fallback returns its
  stripped raw text, the empty string. This holds with the stand-ins, and with every
  \<open>upper\<close> and \<open>strip\<close> that do on the three texts involved what Python does:
  \<^verbatim>\<open>" ".upper() == " "\<close>, \<^verbatim>\<open>" ".strip() == ""\<close> and \<^verbatim>\<open>"".upper() == ""\<close>.
\<close>

theorem extract_plate_number_blank_counterexample:
  "[([32], 1/2 :: real)] \<noteq> []
   \<and> extract_plate_number ascii_upper ascii_strip [([32], 1/2)] = Inr (Some ([], 1/2))
   \<and> \<not> (\<exists>s c. extract_plate_number ascii_upper ascii_strip [([32], 1/2)] = Inr (Some (s, c))
              \<and> 1 \<le> length s)
   \<and> \<not> (\<exists>upper strip s c.
              upper [32] = [32] \<and> strip [32] = [] \<and> upper [] = []
              \<and> extract_plate_number upper strip [([32], 1/2)] = Inr (Some (s, c))
              \<and> 1 \<le> length s)"
proof -
  have v: "extract_plate_number ascii_upper ascii_strip [([32], 1/2)] = Inr (Some ([], 1/2))"
    by code_simp
  have g: "extract_plate_number upper strip [([32], 1/2)] = Inr (Some ([], 1/2))"
    if "upper [32] = [32]" "strip [32] = []" "upper [] = []" for upper strip
    using that by (simp add: extract_plate_number_def cleaned_def plate_char_def)
  have "\<not> (\<exists>upper strip s c.
              upper [32] = [32] \<and> strip [32] = [] \<and> upper [] = []
              \<and> extract_plate_number upper strip [([32], 1/2)] = Inr (Some (s, c))
              \<and> 1 \<le> length s)"
  proof
    assume "\<exists>upper strip s c.
              upper [32] = [32] \<and> strip [32] = [] \<and> upper [] = []
              \<and> extract_plate_number upper strip [([32], 1/2)] = Inr (Some (s, c))
              \<and> 1 \<le> length s"
    then obtain upper strip s c where
      a: "upper [32] = [32]" "strip [32] = []" "upper [] = []"
         "extract_plate_number upper strip [([32], 1/2)] = Inr (Some (s, c))" "1 \<le> length s"
      by (elim exE conjE) (rule that)
    from g[of upper strip, OF a(1,2,3)] a(4) have "s = []" by simp
    with a(5) show False by simp
  qed
  with v show ?thesis by simp
qed

text \<open>
  C2. When the list is not empty and no candidate's cleaned text has 4 to 10 characters,
  the result is the stripped, upper-cased raw text (not the cleaned text) and the
  confidence of the first candidate of greatest confidence in the unfiltered list.
\<close>

theorem extract_plate_number_fallback:
  assumes "results \<noteq> []"
    and "\<forall>r\<in>set results. length (cleaned upper (fst r)) < 4
                            \<or> 10 < length (cleaned upper (fst r))"
  shows "\<exists>i. first_max_at snd results i
            \<and> extract_plate_number upper strip results =
                Inr (Some (upper (strip (fst (results ! i))), snd (results ! i)))"
proof -
  have e: "cleaned_results upper results = []"
    using assms(2) by (auto simp: cleaned_results_Nil_iff plate_length_def)
  from py_max_first_max[OF assms(1), of snd] obtain i where
    i: "first_max_at snd results i" "py_max snd results = Inr (results ! i)" by blast
  have "extract_plate_number upper strip results =
                Inr (Some (upper (strip (fst (results ! i))), snd (results ! i)))"
    using assms(1) e i(2) by (simp add: extract_plate_number_def split: prod.splits)
  with i(1) show ?thesis by blast
qed

text \<open>
  The theorem at the ASCII candidates \<^verbatim>\<open>[("ab", 0.5), (" x-y ", 0.9), ("Q", 0.9)]\<close>:
  every cleaned text is shorter than 4, the second and third candidates tie, and the
  result is the second's raw text \<^verbatim>\<open>"X-Y"\<close>, hyphen kept.
\<close>

theorem extract_plate_number_fallback_witness:
  "[(codes ''ab'', 1/2 :: real), (codes '' x-y '', 9/10), (codes ''Q'', 9/10)] \<noteq> []
   \<and> list_all (\<lambda>r. length (cleaned ascii_upper (fst r)) < 4
                     \<or> 10 < length (cleaned ascii_upper (fst r)))
        [(codes ''ab'', 1/2 :: real), (codes '' x-y '', 9/10), (codes ''Q'', 9/10)]
   \<and> extract_plate_number ascii_upper ascii_strip
        [(codes ''ab'', 1/2), (codes '' x-y '', 9/10), (codes ''Q'', 9/10)]
        = Inr (Some (codes ''X-Y'', 9/10))
   \<and> (\<exists>i. first_max_at snd
            [(codes ''ab'', 1/2 :: real), (codes '' x-y '', 9/10), (codes ''Q'', 9/10)] i
          \<and> extract_plate_number ascii_upper ascii_strip
               [(codes ''ab'', 1/2), (codes '' x-y '', 9/10), (codes ''Q'', 9/10)] =
                Inr (Some
                  (ascii_upper (ascii_strip (fst
                     ([(codes ''ab'', 1/2 :: real), (codes '' x-y '', 9/10),
                       (codes ''Q'', 9/10)] ! i))),
                   snd ([(codes ''ab'', 1/2 :: real), (codes '' x-y '', 9/10),
                         (codes ''Q'', 9/10)] ! i))))"
proof -
  let ?rs = "[(codes ''ab'', 1/2 :: real), (codes '' x-y '', 9/10), (codes ''Q'', 9/10)]"
  have h1: "?rs \<noteq> []" by simp
  have h2': "list_all (\<lambda>r. length (cleaned ascii_upper (fst r)) < 4
                             \<or> 10 < length (cleaned ascii_upper (fst r))) ?rs"
    by code_simp
  then have h2: "\<forall>r\<in>set ?rs. length (cleaned ascii_upper (fst r)) < 4
                             \<or> 10 < length (cleaned ascii_upper (fst r))"
    unfolding list_all_iff .
  have v: "extract_plate_number ascii_upper ascii_strip ?rs = Inr (Some (codes ''X-Y'', 9/10))"
    by code_simp
  from extract_plate_number_fallback[OF h1 h2, of ascii_strip] h1 h2' v show ?thesis by blast
qed

text \<open>
  C3. When some candidate's cleaned text has 4 to 10 characters, the result is the
  cleaned text and the confidence of the first candidate of greatest confidence among
  those that pass the filter, taken in input order.
\<close>

theorem extract_plate_number_filtered:
  assumes "\<exists>r\<in>set results. 4 \<le> length (cleaned upper (fst r))
                            \<and> length (cleaned upper (fst r)) \<le> 10"
  shows "\<exists>i. first_max_at snd (survivors upper results) i
            \<and> extract_plate_number upper strip results =
                Inr (Some (cleaned upper (fst (survivors upper results ! i)),
                           snd (survivors upper results ! i)))"
proof -
  have ne: "cleaned_results upper results \<noteq> []"
    using assms by (auto simp: cleaned_results_Nil_iff plate_length_def)
  then have rne: "results \<noteq> []" by auto
  from py_max_first_max[OF ne, of snd] obtain i where
    i: "first_max_at snd (cleaned_results upper results) i"
       "py_max snd (cleaned_results upper results) = Inr (cleaned_results upper results ! i)"
    by blast
  have fm: "first_max_at snd (survivors upper results) i"
    using i(1)
      first_max_at_map[of snd "\<lambda>r. (cleaned upper (fst r), snd r)" snd
        "survivors upper results" i]
    by (simp add: cleaned_results_survivors)
  then have "i < length (survivors upper results)" by (simp add: first_max_at_def)
  then have "cleaned_results upper results ! i
               = (cleaned upper (fst (survivors upper results ! i)),
                  snd (survivors upper results ! i))"
    by (simp add: cleaned_results_survivors)
  then have "extract_plate_number upper strip results =
                Inr (Some (cleaned upper (fst (survivors upper results ! i)),
                           snd (survivors upper results ! i)))"
    using ne rne i(2) by (simp add: extract_plate_number_def)
  with fm show ?thesis by blast
qed

text \<open>
  The theorem at the ASCII candidates \<^verbatim>\<open>[("xy", 0.95), ("ab-12 cd", 0.5), ("QQQQ", 0.5)]\<close>:
  the first candidate has the greatest confidence but is filtered out, the other two
  tie, and the result is the earlier one, cleaned: \<^verbatim>\<open>("AB12CD", 0.5)\<close>.
\<close>

theorem extract_plate_number_filtered_witness:
  "list_ex (\<lambda>r. 4 \<le> length (cleaned ascii_upper (fst r))
                  \<and> length (cleaned ascii_upper (fst r)) \<le> 10)
        [(codes ''xy'', 19/20 :: real), (codes ''ab-12 cd'', 1/2), (codes ''QQQQ'', 1/2)]
   \<and> extract_plate_number ascii_upper ascii_strip
        [(codes ''xy'', 19/20), (codes ''ab-12 cd'', 1/2), (codes ''QQQQ'', 1/2)]
        = Inr (Some (codes ''AB12CD'', 1/2))
   \<and> (\<exists>i. first_max_at snd
            (survivors ascii_upper
               [(codes ''xy'', 19/20), (codes ''ab-12 cd'', 1/2), (codes ''QQQQ'', 1/2)]) i
          \<and> extract_plate_number ascii_upper ascii_strip
               [(codes ''xy'', 19/20), (codes ''ab-12 cd'', 1/2), (codes ''QQQQ'', 1/2)] =
                Inr (Some
                  (cleaned ascii_upper (fst (survivors ascii_upper
                     [(codes ''xy'', 19/20), (codes ''ab-12 cd'', 1/2),
                      (codes ''QQQQ'', 1/2)] ! i)),
                   snd (survivors ascii_upper
                     [(codes ''xy'', 19/20), (codes ''ab-12 cd'', 1/2),
                      (codes ''QQQQ'', 1/2)] ! i))))"
proof -
  let ?rs = "[(codes ''xy'', 19/20 :: real), (codes ''ab-12 cd'', 1/2), (codes ''QQQQ'', 1/2)]"
  have h': "list_ex (\<lambda>r. 4 \<le> length (cleaned ascii_upper (fst r))
                          \<and> length (cleaned ascii_upper (fst r)) \<le> 10) ?rs"
    by code_simp
  then have h: "\<exists>r\<in>set ?rs. 4 \<le> length (cleaned ascii_upper (fst r))
                          \<and> length (cleaned ascii_upper (fst r)) \<le> 10"
    unfolding list_ex_iff .
  have v: "extract_plate_number ascii_upper ascii_strip ?rs
             = Inr (Some (codes ''AB12CD'', 1/2))"
    by code_simp
  from extract_plate_number_filtered[OF h, of ascii_strip] h' v show ?thesis by blast
qed

section \<open>Validation\<close>

text \<open>
  C7. A blob of more than \<open>10 * 1024 * 1024\<close> bytes is invalid with the size-limit
  message, whatever its bytes, its declared type and the decoder.
\<close>

theorem validate_image_oversized:
  assumes "length file_content > 10 * 1024 * 1024"
  shows "validate_image pil_verify formats_order file_content content_type
           = (False, ''File size exceeds 10MB limit'')"
  using assms by (simp add: validate_image_def MAX_FILE_SIZE_def)

text \<open>
  The theorem at a blob of \<open>10 * 1024 * 1024 + 1\<close> zero bytes declared as a PNG that
  the decoder would accept.
\<close>

theorem validate_image_oversized_witness:
  "length (replicate 10485761 (0 :: byte)) > 10 * 1024 * 1024
   \<and> validate_image (\<lambda>b. Verified) [] (replicate 10485761 0) ''image/png''
        = (False, ''File size exceeds 10MB limit'')"
proof -
  have h: "length (replicate 10485761 (0 :: byte)) > 10 * 1024 * 1024" by simp
  from validate_image_oversized[OF h] h show ?thesis by blast
qed

text \<open>
  C10. \<open>validate_image\<close> has a result on every input: the decoder's exception is an
  outcome that the function turns into a result. The result is \<open>(True, '''')\<close> exactly
  when the blob is within the size limit, the declared type is one of the four
  supported ones and the decoder accepts the blob; otherwise the flag is \<open>False\<close> and
  the message is not empty, and a decoder exception \<open>e\<close> gives the message
  \<^verbatim>\<open>Invalid image file: \<close> followed by \<open>e\<close>.
\<close>

theorem validate_image_total:
  "(validate_image pil_verify formats_order file_content content_type = (True, '''')
      \<longleftrightarrow> length file_content \<le> 10 * 1024 * 1024
          \<and> content_type \<in> {''image/jpeg'', ''image/jpg'', ''image/png'', ''image/webp''}
          \<and> pil_verify file_content = Verified)
   \<and> (validate_image pil_verify formats_order file_content content_type \<noteq> (True, '''')
        \<longrightarrow> \<not> fst (validate_image pil_verify formats_order file_content content_type)
            \<and> snd (validate_image pil_verify formats_order file_content content_type) \<noteq> '''')
   \<and> (length file_content \<le> 10 * 1024 * 1024
        \<and> content_type \<in> {''image/jpeg'', ''image/jpg'', ''image/png'', ''image/webp''}
        \<and> pil_verify file_content = Raised e
        \<longrightarrow> validate_image pil_verify formats_order file_content content_type
              = (False, ''Invalid image file: '' @ e))"
proof (cases "length file_content > MAX_FILE_SIZE")
  case True
  then show ?thesis by (simp add: validate_image_def MAX_FILE_SIZE_def)
next
  case small: False
  show ?thesis
  proof (cases "content_type \<in> SUPPORTED_FORMATS")
    case False
    then show ?thesis
      using small by (simp add: validate_image_def MAX_FILE_SIZE_def SUPPORTED_FORMATS_def)
  next
    case True
    then show ?thesis
      using small
      by (cases "pil_verify file_content")
         (simp_all add: validate_image_def MAX_FILE_SIZE_def SUPPORTED_FORMATS_def)
  qed
qed

text \<open>
  The theorem at a three-byte blob declared as a PNG on which the decoder raises
  \<^verbatim>\<open>cannot identify image file\<close>.
\<close>

theorem validate_image_total_witness:
  "validate_image (\<lambda>b. Raised ''cannot identify image file'') [] [1, 2, 3] ''image/png''
      \<noteq> (True, '''')
   \<and> length [1, 2, 3 :: byte] \<le> 10 * 1024 * 1024
   \<and> ''image/png'' \<in> {''image/jpeg'', ''image/jpg'', ''image/png'', ''image/webp''}
   \<and> validate_image (\<lambda>b. Raised ''cannot identify image file'') [] [1, 2, 3] ''image/png''
      = (False, ''Invalid image file: cannot identify image file'')
   \<and> snd (validate_image (\<lambda>b. Raised ''cannot identify image file'') [] [1, 2, 3] ''image/png'')
      \<noteq> ''''"
  using validate_image_total[of "\<lambda>b. Raised ''cannot identify image file''" "[]" "[1, 2, 3]"
          "''image/png''" "''cannot identify image file''"]
  by simp

section \<open>Resizing\<close>

lemma fl_zero: "rounds_like_double fl \<Longrightarrow> fl 0 = 0"
  unfolding rounds_like_double_def
proof -
  assume a: "\<forall>x. x = 0 \<or> 1 / 2 ^ 1022 \<le> x \<and> x \<le> 2 ^ 1023 \<longrightarrow> \<bar>fl x - x\<bar> \<le> x / 2 ^ 53"
  have "\<bar>fl 0 - 0\<bar> \<le> 0 / 2 ^ 53" using a by blast
  then show "fl 0 = 0" by simp
qed

lemma fl_bounds:
  assumes "rounds_like_double fl" and "1 / 2 ^ 1022 \<le> x" and "x \<le> 2 ^ 1023"
  shows "x - x / 2 ^ 53 \<le> fl x" and "fl x \<le> x + x / 2 ^ 53"
proof -
  have "\<bar>fl x - x\<bar> \<le> x / 2 ^ 53"
    using assms unfolding rounds_like_double_def by blast
  then show "x - x / 2 ^ 53 \<le> fl x" and "fl x \<le> x + x / 2 ^ 53" by linarith+
qed

lemma tiny_le: "(1::real) / 2 ^ 1022 \<le> 1 / 2 ^ 64"
proof -
  have "(2::real) ^ 64 \<le> 2 ^ 1022" by (rule power_increasing) simp_all
  then show ?thesis by (simp add: frac_le)
qed

lemma big_ge: "(3840::real) \<le> 2 ^ 1023"
proof -
  have "(2::real) ^ 12 \<le> 2 ^ 1023" by (rule power_increasing) simp_all
  moreover have "(3840::real) \<le> 2 ^ 12" by simp
  ultimately show ?thesis by linarith
qed

lemma scaled_dimension_bounds:
  assumes fl: "rounds_like_double fl"
    and m: "1920 < m" "m < 2 ^ 63"
    and d: "0 \<le> d" "d \<le> m"
  shows "0 \<le> py_int (fl (py_float fl d * fl (1920 / real_of_int m)))"
    and "py_int (fl (py_float fl d * fl (1920 / real_of_int m))) \<le> 1920"
proof -
  define q :: real where "q = 1920 / real_of_int m"
  define s where "s = fl q"
  define t where "t = py_float fl d"
  define x where "x = t * s"
  have mpos: "0 < real_of_int m" using m by simp
  have mq: "real_of_int m * q = 1920" using mpos by (simp add: q_def)
  have qpos: "0 < q" using mpos by (simp add: q_def)
  have qle: "q \<le> 1" using m mpos by (simp add: q_def)
  have m63: "real_of_int m \<le> 2 ^ 63"
    using m(2) by (metis less_imp_le of_int_le_iff of_int_numeral of_int_power)
  then have "1920 / 2 ^ 63 \<le> 1920 / real_of_int m"
    using mpos by (intro divide_left_mono) simp_all
  moreover have "(1::real) / 2 ^ 62 \<le> 1920 / 2 ^ 63" by simp
  ultimately have qlow: "1 / 2 ^ 62 \<le> q" unfolding q_def by linarith
  have "(1::real) / 2 ^ 64 \<le> 1 / 2 ^ 62" by simp
  then have q1: "1 / 2 ^ 1022 \<le> q" using tiny_le qlow by linarith
  have q2: "q \<le> 2 ^ 1023" using qle big_ge by linarith
  have s1: "q - q / 2 ^ 53 \<le> s" and s2: "s \<le> q + q / 2 ^ 53"
    unfolding s_def using fl_bounds[OF fl q1 q2] by simp_all
  have "q / 2 \<le> q - q / 2 ^ 53" using qpos by simp
  then have shalf: "q / 2 \<le> s" using s1 by linarith
  then have spos: "0 < s" using qpos by linarith
  have r: "0 \<le> fl x \<and> fl x < 1921"
  proof (cases "d = 0")
    case True
    then show ?thesis using fl_zero[OF fl] by (simp add: x_def t_def py_float_def)
  next
    case False
    then have d1: "1 \<le> real_of_int d" using d(1) by linarith
    have dm: "real_of_int d \<le> real_of_int m" using d(2) by simp
    have "(1::real) / 2 ^ 1022 \<le> 1" by simp
    then have r1: "1 / 2 ^ 1022 \<le> real_of_int d" using d1 by linarith
    have "(2::real) ^ 63 \<le> 2 ^ 1023" by (rule power_increasing) simp_all
    then have r2: "real_of_int d \<le> 2 ^ 1023" using dm m63 by linarith
    have t1: "real_of_int d - real_of_int d / 2 ^ 53 \<le> t"
      and t2: "t \<le> real_of_int d + real_of_int d / 2 ^ 53"
      unfolding t_def py_float_def using fl_bounds[OF fl r1 r2] by simp_all
    have "(1::real) / 2 \<le> real_of_int d - real_of_int d / 2 ^ 53" using d1 by simp
    then have thalf: "1 / 2 \<le> t" using t1 by linarith
    have tm: "t \<le> real_of_int m + real_of_int m / 2 ^ 53" using t2 dm by simp
    have "1 / 2 * (q / 2) \<le> t * s"
      using thalf shalf qpos by (intro mult_mono) simp_all
    then have xlow: "q / 4 \<le> x" by (simp add: x_def)
    have "(1::real) / 2 ^ 64 \<le> q / 4" using qlow by simp
    then have x1: "1 / 2 ^ 1022 \<le> x" using xlow tiny_le by linarith
    have "t * s \<le> (real_of_int m + real_of_int m / 2 ^ 53) * (q + q / 2 ^ 53)"
      using tm s2 spos mpos by (intro mult_mono) simp_all
    also have "\<dots> = real_of_int m * q * ((1 + 1 / 2 ^ 53) * (1 + 1 / 2 ^ 53))"
      by (simp add: algebra_simps)
    also have "\<dots> = 1920 * ((1 + 1 / 2 ^ 53) * (1 + 1 / 2 ^ 53))" by (simp only: mq)
    finally have xu: "x \<le> 1920 * ((1 + 1 / 2 ^ 53) * (1 + 1 / 2 ^ 53))" by (simp add: x_def)
    have c1: "(1920::real) * ((1 + 1 / 2 ^ 53) * (1 + 1 / 2 ^ 53)) \<le> 3840" by simp
    then have x2: "x \<le> 2 ^ 1023" using xu big_ge by linarith
    have xpos: "0 < x" using xlow qpos by linarith
    have f1: "x - x / 2 ^ 53 \<le> fl x" and f2: "fl x \<le> x + x / 2 ^ 53"
      using fl_bounds[OF fl x1 x2] by simp_all
    have "0 \<le> x - x / 2 ^ 53" using xpos by simp
    then have "0 \<le> fl x" using f1 by linarith
    moreover have "fl x < 1921"
    proof -
      have "x + x / 2 ^ 53 = x * (1 + 1 / 2 ^ 53)" by (simp add: algebra_simps)
      also have "\<dots> \<le> 1920 * ((1 + 1 / 2 ^ 53) * (1 + 1 / 2 ^ 53)) * (1 + 1 / 2 ^ 53)"
        using xu by (intro mult_right_mono) simp_all
      also have "\<dots> < 1921" by simp
      finally show ?thesis using f2 by linarith
    qed
    ultimately show ?thesis by simp
  qed
  then have "py_int (fl x) = \<lfloor>fl x\<rfloor>" by (simp add: py_int_def)
  moreover have "0 \<le> \<lfloor>fl x\<rfloor>" using r by simp
  moreover have "\<lfloor>fl x\<rfloor> \<le> 1920" using r by (simp add: floor_le_iff)
  ultimately show "0 \<le> py_int (fl (py_float fl d * fl (1920 / real_of_int m)))"
    and "py_int (fl (py_float fl d * fl (1920 / real_of_int m))) \<le> 1920"
    by (simp_all add: x_def t_def s_def q_def)
qed

lemma shape_replicate:
  "0 < h \<Longrightarrow> shape (replicate h (replicate w p)) = (int h, int w)"
  by (cases h) (simp_all add: shape_def)

lemma resizes_to_size_blank: "resizes_to_size blank_resize"
  unfolding resizes_to_size_def blank_resize_def
  by (auto simp: shape_replicate split: if_splits)

lemma rounds_like_double_exact: "rounds_like_double (\<lambda>x. x)"
  unfolding rounds_like_double_def by auto

lemma resize_if_needed_small:
  assumes "shape img = (height, width)" and "height \<le> md" and "width \<le> md"
  shows "resize_if_needed fl cv_resize img md = Inr img"
proof -
  have "\<not> max height width > md" using assms(2,3) by simp
  then show ?thesis unfolding resize_if_needed_def using assms(1) by (simp only: prod.case if_False)
qed

text \<open>
  C6. Under double-precision rounding, with a \<^verbatim>\<open>cv2.resize\<close> that returns the
  requested size, and for sides below \<open>2\<^sup>6\<^sup>3\<close>: an image whose larger side is at most
  1920 is returned as it is, and resizing the result of \<open>resize_if_needed\<close> again gives
  the same result as resizing once (the same image, or the same exception).
\<close>

theorem resize_if_needed_idempotent:
  assumes fl: "rounds_like_double fl" and rs: "resizes_to_size cv_resize"
    and h63: "fst (shape img) < 2 ^ 63" and w63: "snd (shape img) < 2 ^ 63"
  shows "(max (fst (shape img)) (snd (shape img)) \<le> 1920
            \<longrightarrow> resize_if_needed fl cv_resize img 1920 = Inr img)
       \<and> resize_twice fl cv_resize img 1920 = resize_if_needed fl cv_resize img 1920"
proof -
  obtain height width where hw: "shape img = (height, width)" by (cases "shape img")
  have nonneg: "0 \<le> height" "0 \<le> width"
    using hw by (auto simp: shape_def split: list.splits)
  show ?thesis
  proof (cases "max height width > 1920")
    case False
    then have "resize_if_needed fl cv_resize img 1920 = Inr img"
      using hw by (intro resize_if_needed_small[of img height width]) simp_all
    then show ?thesis by (simp add: resize_twice_def)
  next
    case True
    define m where "m = max height width"
    define nw where "nw = py_int (fl (py_float fl width * fl (1920 / real_of_int m)))"
    define nh where "nh = py_int (fl (py_float fl height * fl (1920 / real_of_int m)))"
    have m1: "1920 < m" using True by (simp add: m_def)
    have m2: "m < 2 ^ 63" using h63 w63 hw by (simp add: m_def)
    have "width \<le> m" "height \<le> m" by (simp_all add: m_def)
    then have bw: "nw \<le> 1920" and bh: "nh \<le> 1920"
      unfolding nw_def nh_def
      using scaled_dimension_bounds(2)[OF fl m1 m2] nonneg by simp_all
    have once: "resize_if_needed fl cv_resize img 1920 = cv_resize img (nw, nh)"
      using hw True m1 by (simp add: resize_if_needed_def Let_def m_def nw_def nh_def)
    have "resize_twice fl cv_resize img 1920 = cv_resize img (nw, nh)"
    proof (cases "cv_resize img (nw, nh)")
      case (Inl e)
      then show ?thesis using once by (simp add: resize_twice_def)
    next
      case (Inr r)
      then have "shape r = (nh, nw)" using rs unfolding resizes_to_size_def by blast
      then have "resize_if_needed fl cv_resize r 1920 = Inr r"
        using bh bw by (rule resize_if_needed_small)
      then show ?thesis using once Inr by (simp add: resize_twice_def)
    qed
    moreover have "\<not> max (fst (shape img)) (snd (shape img)) \<le> 1920"
      using True hw by auto
    ultimately show ?thesis using once by auto
  qed
qed

text \<open>
  The theorem at a \<open>3840 \<times> 2\<close> image, which is resized to \<open>1920 \<times> 1\<close>, and at a
  \<open>3 \<times> 2\<close> image, which is returned as it is; the rounding is exact and
  \<^verbatim>\<open>cv2.resize\<close> is \<open>blank_resize\<close>.
\<close>

theorem resize_if_needed_idempotent_witness:
  "rounds_like_double (\<lambda>x. x) \<and> resizes_to_size blank_resize
   \<and> shape (replicate 2 (replicate 3840 (0::nat))) = (2, 3840)
   \<and> resize_if_needed (\<lambda>x. x) blank_resize (replicate 2 (replicate 3840 0)) 1920
        = Inr (replicate 1 (replicate 1920 0))
   \<and> resize_twice (\<lambda>x. x) blank_resize (replicate 2 (replicate 3840 0)) 1920
        = Inr (replicate 1 (replicate 1920 0))
   \<and> shape [[7, 2, 3], [4, 5, 6 :: nat]] = (2, 3)
   \<and> resize_if_needed (\<lambda>x. x) blank_resize [[7, 2, 3], [4, 5, 6]] 1920
        = Inr [[7, 2, 3], [4, 5, 6]]
   \<and> resize_twice (\<lambda>x. x) blank_resize [[7, 2, 3], [4, 5, 6]] 1920
        = Inr [[7, 2, 3], [4, 5, 6]]"
proof -
  let ?big = "replicate 2 (replicate 3840 (0::nat))"
  let ?small = "[[7, 2, 3], [4, 5, 6 :: nat]]"
  have sb: "shape ?big = (2, 3840)" using shape_replicate[of 2 3840 "0::nat"] by simp
  have ss: "shape ?small = (2, 3)" by (simp add: shape_def)
  have vb: "resize_if_needed (\<lambda>x. x) blank_resize ?big 1920 = Inr (replicate 1 (replicate 1920 0))"
    by (simp add: resize_if_needed_def sb Let_def py_int_def py_float_def blank_resize_def)
  have big: "resize_twice (\<lambda>x. x) blank_resize ?big 1920
               = resize_if_needed (\<lambda>x. x) blank_resize ?big 1920"
    using resize_if_needed_idempotent[OF rounds_like_double_exact resizes_to_size_blank, of ?big]
    by (simp add: sb)
  have small: "resize_if_needed (\<lambda>x. x) blank_resize ?small 1920 = Inr ?small
       \<and> resize_twice (\<lambda>x. x) blank_resize ?small 1920
               = resize_if_needed (\<lambda>x. x) blank_resize ?small 1920"
    using resize_if_needed_idempotent[OF rounds_like_double_exact resizes_to_size_blank, of ?small]
    by (simp add: ss)
  show ?thesis
    using rounds_like_double_exact resizes_to_size_blank sb ss vb big small by simp
qed

section \<open>The aspect ratio in double precision\<close>

lemma py_float_bounds:
  assumes fl: "rounds_like_double fl" and n: "0 < n" "n < 2 ^ 31"
  shows "real_of_int n - real_of_int n / 2 ^ 53 \<le> py_float fl n"
    and "py_float fl n \<le> real_of_int n + real_of_int n / 2 ^ 53"
    and "1 / 2 \<le> py_float fl n"
    and "py_float fl n \<le> 2 ^ 32"
proof -
  have n1: "1 \<le> real_of_int n" using n(1) by linarith
  have n31: "real_of_int n \<le> 2 ^ 31"
    using n(2) by simp
  have "(1::real) / 2 ^ 1022 \<le> 1" by simp
  then have r1: "1 / 2 ^ 1022 \<le> real_of_int n" using n1 by linarith
  have "(2::real) ^ 31 \<le> 2 ^ 1023" by (rule power_increasing) simp_all
  then have r2: "real_of_int n \<le> 2 ^ 1023" using n31 by linarith
  show lo: "real_of_int n - real_of_int n / 2 ^ 53 \<le> py_float fl n"
    and hi: "py_float fl n \<le> real_of_int n + real_of_int n / 2 ^ 53"
    unfolding py_float_def using fl_bounds[OF fl r1 r2] by simp_all
  have "(1::real) / 2 \<le> real_of_int n - real_of_int n / 2 ^ 53" using n1 by simp
  then show "1 / 2 \<le> py_float fl n" using lo by linarith
  have "real_of_int n + real_of_int n / 2 ^ 53 \<le> 2 ^ 32" using n31 by simp
  then show "py_float fl n \<le> 2 ^ 32" using hi by linarith
qed

lemma ratio_lower_gap:
  fixes H :: real
  assumes "2 * (H - H / 2 ^ 53) \<le> (2 * H - 1) * ((1 + 1 / 2 ^ 53) * (1 + 1 / 2 ^ 53))"
    and "H \<le> 2 ^ 31" and "1 \<le> H"
  shows False
  using assms by (simp add: algebra_simps)

lemma ratio_upper_gap:
  fixes H :: real
  assumes "(5 * H + 1) * ((1 - 1 / 2 ^ 53) * (1 - 1 / 2 ^ 53)) \<le> 5 * (H + H / 2 ^ 53)"
    and "H \<le> 2 ^ 31" and "1 \<le> H"
  shows False
  using assms by (simp add: algebra_simps)

lemma aspect_ratio_exact:
  assumes fl: "rounds_like_double fl"
    and h: "0 < h" "h < 2 ^ 31" and w: "0 \<le> w" "w < 2 ^ 31"
    and lo: "2 \<le> aspect_ratio_of fl (x, y, w, h)"
    and hi: "aspect_ratio_of fl (x, y, w, h) \<le> 5"
  shows "2 * h \<le> w \<and> w \<le> 5 * h"
proof -
  define a where "a = py_float fl w"
  define b where "b = py_float fl h"
  define q where "q = a / b"
  have r: "aspect_ratio_of fl (x, y, w, h) = fl q"
    by (simp add: aspect_ratio_of_def q_def a_def b_def)
  have b1: "real_of_int h - real_of_int h / 2 ^ 53 \<le> b"
    and b2: "b \<le> real_of_int h + real_of_int h / 2 ^ 53"
    and b3: "1 / 2 \<le> b" and b4: "b \<le> 2 ^ 32"
    unfolding b_def using py_float_bounds[OF fl h] by simp_all
  have bpos: "0 < b" using b3 by linarith
  have wpos: "0 < w"
  proof (rule ccontr)
    assume "\<not> 0 < w"
    then have "w = 0" using w(1) by simp
    then have "q = 0" using fl_zero[OF fl] by (simp add: q_def a_def py_float_def)
    then have "fl q = 0" using fl_zero[OF fl] by simp
    then show False using lo r by simp
  qed
  have a1: "real_of_int w - real_of_int w / 2 ^ 53 \<le> a"
    and a2: "a \<le> real_of_int w + real_of_int w / 2 ^ 53"
    and a3: "1 / 2 \<le> a" and a4: "a \<le> 2 ^ 32"
    unfolding a_def using py_float_bounds[OF fl wpos w(2)] by simp_all
  have qb: "q * b = a" using bpos by (simp add: q_def)
  have "(1 / 2) / 2 ^ 32 \<le> a / b" using a3 b4 bpos by (intro frac_le) simp_all
  then have ql: "1 / 2 ^ 33 \<le> q" by (simp add: q_def)
  have "a / b \<le> 2 ^ 32 / (1 / 2)" using a4 b3 a3 by (intro frac_le) simp_all
  then have qu: "q \<le> 2 ^ 33" by (simp add: q_def)
  have "(2::real) ^ 33 \<le> 2 ^ 1022" by (rule power_increasing) simp_all
  then have "(1::real) / 2 ^ 1022 \<le> 1 / 2 ^ 33" by (simp add: frac_le)
  then have q1: "1 / 2 ^ 1022 \<le> q" using ql by linarith
  have "(2::real) ^ 33 \<le> 2 ^ 1023" by (rule power_increasing) simp_all
  then have q2: "q \<le> 2 ^ 1023" using qu by linarith
  have f1: "q - q / 2 ^ 53 \<le> fl q" and f2: "fl q \<le> q + q / 2 ^ 53"
    using fl_bounds[OF fl q1 q2] by simp_all
  have hr: "real_of_int h \<le> 2 ^ 31" using h(2) by simp
  have h1: "1 \<le> real_of_int h" using h(1) by linarith
  have lower: "2 * h \<le> w"
  proof (rule ccontr)
    assume "\<not> 2 * h \<le> w"
    then have "w \<le> 2 * h - 1" by simp
    then have "real_of_int w \<le> real_of_int (2 * h - 1)" by (simp only: of_int_le_iff)
    then have wle: "real_of_int w \<le> 2 * real_of_int h - 1" by simp
    have "2 \<le> q * (1 + 1 / 2 ^ 53)" using lo r f2 by (simp add: algebra_simps)
    then have s1: "2 * b \<le> q * (1 + 1 / 2 ^ 53) * b"
      using bpos by (intro mult_right_mono) simp_all
    have s2: "q * (1 + 1 / 2 ^ 53) * b = a * (1 + 1 / 2 ^ 53)"
      using qb by (simp add: algebra_simps)
    have s3: "a * (1 + 1 / 2 ^ 53) \<le> (real_of_int w + real_of_int w / 2 ^ 53) * (1 + 1 / 2 ^ 53)"
      using a2 by (intro mult_right_mono) simp_all
    have s4: "(real_of_int w + real_of_int w / 2 ^ 53) * (1 + 1 / 2 ^ 53)
        = real_of_int w * ((1 + 1 / 2 ^ 53) * (1 + 1 / 2 ^ 53))"
      by (simp add: algebra_simps)
    have s5: "real_of_int w * ((1 + 1 / 2 ^ 53) * (1 + 1 / 2 ^ 53))
        \<le> (2 * real_of_int h - 1) * ((1 + 1 / 2 ^ 53) * (1 + 1 / 2 ^ 53))"
      using wle by (intro mult_right_mono) simp_all
    have "2 * (real_of_int h - real_of_int h / 2 ^ 53) \<le> 2 * b" using b1 by simp
    also note s1
    also note s2
    also note s3
    also note s4
    also note s5
    finally show False using hr h1 by (rule ratio_lower_gap)
  qed
  have upper: "w \<le> 5 * h"
  proof (rule ccontr)
    assume "\<not> w \<le> 5 * h"
    then have "5 * h + 1 \<le> w" by simp
    then have "real_of_int (5 * h + 1) \<le> real_of_int w" by (simp only: of_int_le_iff)
    then have wge: "5 * real_of_int h + 1 \<le> real_of_int w" by simp
    have "q * (1 - 1 / 2 ^ 53) \<le> 5" using hi r f1 by (simp add: algebra_simps)
    then have s1: "q * (1 - 1 / 2 ^ 53) * b \<le> 5 * b"
      using bpos by (intro mult_right_mono) simp_all
    have s2: "a * (1 - 1 / 2 ^ 53) = q * (1 - 1 / 2 ^ 53) * b"
      using qb by (simp add: algebra_simps)
    have s3: "(real_of_int w - real_of_int w / 2 ^ 53) * (1 - 1 / 2 ^ 53) \<le> a * (1 - 1 / 2 ^ 53)"
      using a1 by (intro mult_right_mono) simp_all
    have s4: "real_of_int w * ((1 - 1 / 2 ^ 53) * (1 - 1 / 2 ^ 53))
        = (real_of_int w - real_of_int w / 2 ^ 53) * (1 - 1 / 2 ^ 53)"
      by (simp add: algebra_simps)
    have s5: "(5 * real_of_int h + 1) * ((1 - 1 / 2 ^ 53) * (1 - 1 / 2 ^ 53))
        \<le> real_of_int w * ((1 - 1 / 2 ^ 53) * (1 - 1 / 2 ^ 53))"
      using wge by (intro mult_right_mono) simp_all
    have s6: "5 * b \<le> 5 * (real_of_int h + real_of_int h / 2 ^ 53)" using b2 by simp
    note s5
    also note s4
    also note s3
    also note s2
    also note s1
    also note s6
    finally show False using hr h1 by (rule ratio_upper_gap)
  qed
  from lower upper show ?thesis by simp
qed

section \<open>The best plate\<close>

lemma get_best_plate_selected:
  assumes ex: "executed_boxes cv fl img = Inr plates" and ne: "plates \<noteq> []"
  shows "\<exists>i x y w h. first_max_at box_area plates i \<and> plates ! i = (x, y, w, h)
           \<and> snd (get_best_plate cv fl img) =
               Inr (Some (crop img (max 0 (y - 5)) (min (fst (shape img)) (y + h + 5))
                                   (max 0 (x - 5)) (min (snd (shape img)) (x + w + 5)),
                          (x, y, w, h)))"
proof -
  from py_sorted_reverse_first[OF ne, of box_area] obtain i rest where
    i: "first_max_at box_area plates i" "py_sorted_reverse box_area plates = plates ! i # rest"
    by blast
  obtain x y w h where b: "plates ! i = (x, y, w, h)" by (cases "plates ! i")
  have "snd (get_best_plate cv fl img) =
               Inr (Some (crop img (max 0 (y - 5)) (min (fst (shape img)) (y + h + 5))
                                   (max 0 (x - 5)) (min (snd (shape img)) (x + w + 5)),
                          (x, y, w, h)))"
  proof (cases "detect_plates cv img = []")
    case True
    then have "detect_plates_contour_method cv fl img = Inr plates"
      using ex by (simp add: executed_boxes_def)
    then show ?thesis using True ne i(2) b by (simp add: get_best_plate_def Let_def)
  next
    case False
    then have "detect_plates cv img = plates" using ex by (simp add: executed_boxes_def)
    then show ?thesis using False ne i(2) b by (simp add: get_best_plate_def Let_def)
  qed
  with i(1) b show ?thesis by blast
qed



text \<open>
  C9. Among the boxes of the detector that ran, the one returned is the first of greatest
  area in the detector's order: it stands at the one position that \<open>first_max_at\<close>
  accepts, so the choice among boxes of equal area is fixed by that order.
\<close>

theorem get_best_plate_first_largest:
  assumes "executed_boxes cv fl img = Inr plates" and "plates \<noteq> []"
  shows "\<exists>i plate_img. first_max_at box_area plates i
           \<and> (\<forall>j. first_max_at box_area plates j \<longrightarrow> j = i)
           \<and> snd (get_best_plate cv fl img) = Inr (Some (plate_img, plates ! i))"
proof -
  from get_best_plate_selected[OF assms] obtain i x y w h where
    i: "first_max_at box_area plates i" "plates ! i = (x, y, w, h)"
       "snd (get_best_plate cv fl img) =
               Inr (Some (crop img (max 0 (y - 5)) (min (fst (shape img)) (y + h + 5))
                                   (max 0 (x - 5)) (min (snd (shape img)) (x + w + 5)),
                          (x, y, w, h)))" by blast
  have u: "\<forall>j. first_max_at box_area plates j \<longrightarrow> j = i"
    using first_max_at_unique[OF _ i(1)] by blast
  have r: "snd (get_best_plate cv fl img) =
               Inr (Some (crop img (max 0 (y - 5)) (min (fst (shape img)) (y + h + 5))
                                   (max 0 (x - 5)) (min (snd (shape img)) (x + w + 5)),
                          plates ! i))"
    using i(2,3) by simp
  show ?thesis
    by (rule exI[of _ i], rule exI, intro conjI) (rule i(1) u r)+
qed

text \<open>
  The theorem at the classifier boxes \<^verbatim>\<open>[(1,1,1,1), (6,7,2,1), (0,0,1,2)]\<close>: the second
  and the third have the greatest area 2, and the second is returned.
\<close>

theorem get_best_plate_first_largest_witness:
  "executed_boxes (demo_cv [(1, 1, 1, 1), (6, 7, 2, 1), (0, 0, 1, 2)] demo_contours) (\<lambda>x. x) demo_img
     = Inr [(1, 1, 1, 1), (6, 7, 2, 1), (0, 0, 1, 2)]
   \<and> ([(1, 1, 1, 1), (6, 7, 2, 1), (0, 0, 1, 2)] :: box list) \<noteq> []
   \<and> first_max_at box_area [(1, 1, 1, 1), (6, 7, 2, 1), (0, 0, 1, 2)] 1
   \<and> (\<exists>plate_img.
         snd (get_best_plate (demo_cv [(1, 1, 1, 1), (6, 7, 2, 1), (0, 0, 1, 2)] demo_contours)
                (\<lambda>x. x) demo_img)
           = Inr (Some (plate_img, (6, 7, 2, 1))))"
proof -
  let ?boxes = "[(1, 1, 1, 1), (6, 7, 2, 1), (0, 0, 1, 2)] :: box list"
  have h1: "executed_boxes (demo_cv ?boxes demo_contours) (\<lambda>x. x) demo_img = Inr ?boxes"
    by (simp add: executed_boxes_def detect_plates_def demo_cv_def)
  have h2: "?boxes \<noteq> []" by simp
  have f: "first_max_at box_area ?boxes 1"
    by (auto simp: first_max_at_def box_area_def nth_Cons less_Suc_eq split: nat.splits)
  from get_best_plate_first_largest[OF h1 h2] obtain i plate_img where
    i: "first_max_at box_area ?boxes i"
       "\<forall>j. first_max_at box_area ?boxes j \<longrightarrow> j = i"
       "snd (get_best_plate (demo_cv ?boxes demo_contours) (\<lambda>x. x) demo_img)
          = Inr (Some (plate_img, ?boxes ! i))" by blast
  from i(2) f have "i = 1" by auto
  with i(3) have "snd (get_best_plate (demo_cv ?boxes demo_contours) (\<lambda>x. x) demo_img)
          = Inr (Some (plate_img, (6, 7, 2, 1)))" by simp
  then have "\<exists>plate_img.
         snd (get_best_plate (demo_cv ?boxes demo_contours) (\<lambda>x. x) demo_img)
           = Inr (Some (plate_img, (6, 7, 2, 1)))" by blast
  with h1 h2 f show ?thesis by blast
qed

text \<open>
  C4. When the detector that ran returned boxes with non-negative coordinates and sizes
  on a rectangular image, \<open>get_best_plate\<close> returns one of these boxes, of greatest
  area \<open>w * h\<close> among them and as the detector gave it, together with the part of the
  image in the rows \<open>max 0 (y - 5)\<close> up to \<open>min height (y + h + 5)\<close> and the columns
  \<open>max 0 (x - 5)\<close> up to \<open>min width (x + w + 5)\<close>.
\<close>

theorem get_best_plate_largest_cropped:
  assumes ex: "executed_boxes cv fl img = Inr plates" and ne: "plates \<noteq> []"
    and wf: "\<forall>(x, y, w, h)\<in>set plates. 0 \<le> x \<and> 0 \<le> y \<and> 0 \<le> w \<and> 0 \<le> h"
    and rect: "\<forall>row\<in>set img. int (length row) = snd (shape img)"
  shows "\<exists>x y w h plate_img.
           snd (get_best_plate cv fl img) = Inr (Some (plate_img, (x, y, w, h)))
           \<and> (x, y, w, h) \<in> set plates
           \<and> (\<forall>(x', y', w', h')\<in>set plates. w' * h' \<le> w * h)
           \<and> length plate_img = nat (min (fst (shape img)) (y + h + 5) - max 0 (y - 5))
           \<and> (\<forall>i<length plate_img.
                 length (plate_img ! i) = nat (min (snd (shape img)) (x + w + 5) - max 0 (x - 5))
                 \<and> (\<forall>j<length (plate_img ! i).
                       plate_img ! i ! j
                         = img ! (nat (max 0 (y - 5)) + i) ! (nat (max 0 (x - 5)) + j)))"
proof -
  from get_best_plate_selected[OF ex ne] obtain k x y w h where
    k: "first_max_at box_area plates k" "plates ! k = (x, y, w, h)"
       "snd (get_best_plate cv fl img) =
               Inr (Some (crop img (max 0 (y - 5)) (min (fst (shape img)) (y + h + 5))
                                   (max 0 (x - 5)) (min (snd (shape img)) (x + w + 5)),
                          (x, y, w, h)))" by blast
  define y1 where "y1 = max 0 (y - 5)"
  define y2 where "y2 = min (fst (shape img)) (y + h + 5)"
  define x1 where "x1 = max 0 (x - 5)"
  define x2 where "x2 = min (snd (shape img)) (x + w + 5)"
  define plate_img where "plate_img = crop img y1 y2 x1 x2"
  have kl: "k < length plates" using k(1) by (simp add: first_max_at_def)
  then have mem: "(x, y, w, h) \<in> set plates" using k(2) by (metis nth_mem)
  then have nn: "0 \<le> x" "0 \<le> y" "0 \<le> w" "0 \<le> h" using wf by auto
  have largest: "\<forall>(x', y', w', h')\<in>set plates. w' * h' \<le> w * h"
  proof -
    have "box_area p \<le> box_area (plates ! k)" if "p \<in> set plates" for p
    proof -
      from that obtain j where "j < length plates" "plates ! j = p"
        by (auto simp: in_set_conv_nth)
      then show ?thesis using k(1) unfolding first_max_at_def by blast
    qed
    then show ?thesis using k(2) by (auto simp: box_area_def)
  qed
  have H: "fst (shape img) = int (length img)" by (simp add: shape_def)
  have W0: "0 \<le> snd (shape img)" by (simp add: shape_def split: list.splits)
  have y1: "0 \<le> y1" by (simp add: y1_def)
  have y2: "0 \<le> y2" "y2 \<le> int (length img)" using nn by (simp_all add: y2_def H)
  have x1: "0 \<le> x1" by (simp add: x1_def)
  have x2: "0 \<le> x2" "x2 \<le> snd (shape img)" using nn W0 by (simp_all add: x2_def)
  have rows: "length (py_slice img y1 y2) = nat (y2 - y1)"
    using py_slice_nonneg(1)[OF y1 y2] by simp
  have len: "length plate_img = nat (y2 - y1)"
    by (simp add: plate_img_def crop_def rows)
  have cells: "length (plate_img ! i) = nat (x2 - x1)
        \<and> (\<forall>j<length (plate_img ! i). plate_img ! i ! j = img ! (nat y1 + i) ! (nat x1 + j))"
    if i: "i < length plate_img" for i
  proof -
    have i': "i < nat (y2 - y1)" using i len by simp
    have row: "py_slice img y1 y2 ! i = img ! (nat y1 + i)"
      using py_slice_nonneg(2)[OF y1 y2 i'] .
    have "nat y1 + i < length img" using i' y1 y2 by linarith
    then have "img ! (nat y1 + i) \<in> set img" by simp
    then have rl: "x2 \<le> int (length (img ! (nat y1 + i)))" using rect x2(2) by simp
    have pi: "plate_img ! i = py_slice (img ! (nat y1 + i)) x1 x2"
      using i' rows row by (simp add: plate_img_def crop_def)
    show ?thesis
      using py_slice_nonneg[OF x1 x2(1) rl] by (simp add: pi)
  qed
  have res: "snd (get_best_plate cv fl img) = Inr (Some (plate_img, (x, y, w, h)))"
    using k(3) by (simp add: plate_img_def y1_def y2_def x1_def x2_def)
  have cells': "\<forall>i<length plate_img.
        length (plate_img ! i) = nat (x2 - x1)
        \<and> (\<forall>j<length (plate_img ! i). plate_img ! i ! j = img ! (nat y1 + i) ! (nat x1 + j))"
    using cells by blast
  note facts = res mem largest len[unfolded y1_def y2_def]
    cells'[unfolded y1_def x1_def x2_def]
  show ?thesis
    by (rule exI[of _ x], rule exI[of _ y], rule exI[of _ w], rule exI[of _ h],
        rule exI[of _ plate_img], intro conjI) (rule facts)+
qed

text \<open>
  The theorem at the classifier boxes \<^verbatim>\<open>[(1,1,1,1), (6,7,2,1), (0,0,1,2)]\<close> on the
  \<open>14 \<times> 12\<close> image: the box \<^verbatim>\<open>(6,7,2,1)\<close> is returned with the rows 2 to 11 and the
  columns 1 to 12, the margin being cut at the lower edge of the image.
\<close>

theorem get_best_plate_largest_cropped_witness:
  "executed_boxes (demo_cv [(1, 1, 1, 1), (6, 7, 2, 1), (0, 0, 1, 2)] demo_contours) (\<lambda>x. x) demo_img
     = Inr [(1, 1, 1, 1), (6, 7, 2, 1), (0, 0, 1, 2)]
   \<and> ([(1, 1, 1, 1), (6, 7, 2, 1), (0, 0, 1, 2)] :: box list) \<noteq> []
   \<and> list_all (\<lambda>(x, y, w, h). 0 \<le> x \<and> 0 \<le> y \<and> 0 \<le> w \<and> 0 \<le> h)
        ([(1, 1, 1, 1), (6, 7, 2, 1), (0, 0, 1, 2)] :: box list)
   \<and> list_all (\<lambda>row. int (length row) = snd (shape demo_img)) demo_img
   \<and> snd (get_best_plate (demo_cv [(1, 1, 1, 1), (6, 7, 2, 1), (0, 0, 1, 2)] demo_contours)
            (\<lambda>x. x) demo_img)
        = Inr (Some (map (\<lambda>r. map (\<lambda>c. 100 * r + c) [1..<13]) [2..<12], (6, 7, 2, 1)))
   \<and> (\<exists>x y w h plate_img.
         snd (get_best_plate (demo_cv [(1, 1, 1, 1), (6, 7, 2, 1), (0, 0, 1, 2)] demo_contours)
                (\<lambda>x. x) demo_img)
           = Inr (Some (plate_img, (x, y, w, h)))
         \<and> length plate_img = nat (min (fst (shape demo_img)) (y + h + 5) - max 0 (y - 5)))"
proof -
  let ?boxes = "[(1, 1, 1, 1), (6, 7, 2, 1), (0, 0, 1, 2)] :: box list"
  have h1: "executed_boxes (demo_cv ?boxes demo_contours) (\<lambda>x. x) demo_img = Inr ?boxes"
    by (simp add: executed_boxes_def detect_plates_def demo_cv_def)
  have h2: "?boxes \<noteq> []" by simp
  have h3': "list_all (\<lambda>(x, y, w, h). 0 \<le> x \<and> 0 \<le> y \<and> 0 \<le> w \<and> 0 \<le> h) ?boxes" by simp
  then have h3: "\<forall>(x, y, w, h)\<in>set ?boxes. 0 \<le> x \<and> 0 \<le> y \<and> 0 \<le> w \<and> 0 \<le> h"
    unfolding list_all_iff .
  have h4': "list_all (\<lambda>row. int (length row) = snd (shape demo_img)) demo_img" by code_simp
  then have h4: "\<forall>row\<in>set demo_img. int (length row) = snd (shape demo_img)"
    unfolding list_all_iff .
  have v: "snd (get_best_plate (demo_cv ?boxes demo_contours) (\<lambda>x. x) demo_img)
        = Inr (Some (map (\<lambda>r. map (\<lambda>c. 100 * r + c) [1..<13]) [2..<12], (6, 7, 2, 1)))"
    by code_simp
  from get_best_plate_largest_cropped[OF h1 h2 h3 h4]
  have "\<exists>x y w h plate_img.
         snd (get_best_plate (demo_cv ?boxes demo_contours) (\<lambda>x. x) demo_img)
           = Inr (Some (plate_img, (x, y, w, h)))
         \<and> length plate_img = nat (min (fst (shape demo_img)) (y + h + 5) - max 0 (y - 5))"
    by blast
  with h1 h2 h3' h4' v show ?thesis by blast
qed

section \<open>The contour detector\<close>

lemma plates_loop_spec:
  assumes "plates_loop cv fl cs acc = Inr plates"
  shows "plates = acc @ map (\<lambda>c. boundingRect cv (approx_of cv fl c)) (filter (plate_like cv fl) cs)"
  using assms
proof (induction cs arbitrary: acc)
  case Nil
  then show ?case by simp
next
  case (Cons c cs)
  obtain x y w h where b: "boundingRect cv (approx_of cv fl c) = (x, y, w, h)"
    by (cases "boundingRect cv (approx_of cv fl c)")
  show ?case
  proof (cases "length (approx_of cv fl c) = 4")
    case False
    then have "plates_loop cv fl cs acc = Inr plates"
      using Cons.prems by (simp add: approx_of_def Let_def)
    from Cons.IH[OF this] show ?thesis using False by (simp add: plate_like_def)
  next
    case quad: True
    show ?thesis
    proof (cases "py_float fl h = 0")
      case True
      then have "plates_loop cv fl (c # cs) acc = Inl ZeroDivisionError"
        using quad b by (simp add: approx_of_def Let_def)
      then show ?thesis using Cons.prems by simp
    next
      case False
      show ?thesis
      proof (cases "2 \<le> fl (py_float fl w / py_float fl h) \<and> fl (py_float fl w / py_float fl h) \<le> 5")
        case True
        then have "plates_loop cv fl cs (acc @ [(x, y, w, h)]) = Inr plates"
          using Cons.prems quad b False by (simp add: approx_of_def Let_def)
        from Cons.IH[OF this] show ?thesis
          using True quad b by (simp add: plate_like_def aspect_ratio_of_def)
      next
        case no: False
        then have "plates_loop cv fl cs acc = Inr plates"
          using Cons.prems quad b False by (auto simp: approx_of_def Let_def)
        from Cons.IH[OF this] show ?thesis
          using no quad b by (auto simp: plate_like_def aspect_ratio_of_def)
      qed
    qed
  qed
qed

lemma plates_loop_returns:
  assumes "\<forall>c\<in>set cs. length (approx_of cv fl c) = 4 \<longrightarrow>
             py_float fl (snd (snd (snd (boundingRect cv (approx_of cv fl c))))) \<noteq> 0"
  shows "\<exists>plates. plates_loop cv fl cs acc = Inr plates"
  using assms
proof (induction cs arbitrary: acc)
  case Nil
  then show ?case by simp
next
  case (Cons c cs)
  obtain x y w h where b: "boundingRect cv (approx_of cv fl c) = (x, y, w, h)"
    by (cases "boundingRect cv (approx_of cv fl c)")
  have rest: "\<exists>plates. plates_loop cv fl cs acc' = Inr plates" for acc'
    using Cons.IH[of acc'] Cons.prems by simp
  show ?case
  proof (cases "length (approx_of cv fl c) = 4")
    case False
    then show ?thesis using rest[of acc] by (simp add: approx_of_def Let_def)
  next
    case True
    then have nz: "py_float fl h \<noteq> 0" using Cons.prems b by simp
    show ?thesis
    proof (cases "2 \<le> fl (py_float fl w / py_float fl h) \<and> fl (py_float fl w / py_float fl h) \<le> 5")
      case keep: True
      then show ?thesis
        using True b nz rest[of "acc @ [(x, y, w, h)]"] by (simp add: approx_of_def Let_def)
    next
      case drop: False
      then show ?thesis
        using True b nz rest[of acc] by (auto simp: approx_of_def Let_def)
    qed
  qed
qed

text \<open>
  Under double rounding, and when every bounding rectangle of a quadrilateral has a
  height between 1 and \<open>2\<^sup>3\<^sup>1 - 1\<close> (OpenCV's rectangles of non-empty contours do), the
  division never raises and \<open>detect_plates_contour_method\<close> returns a list.
\<close>

lemma detect_plates_contour_method_returns:
  assumes fl: "rounds_like_double fl"
    and rect: "\<forall>c\<in>set (findContours cv img). length (approx_of cv fl c) = 4 \<longrightarrow>
             0 < snd (snd (snd (boundingRect cv (approx_of cv fl c))))
             \<and> snd (snd (snd (boundingRect cv (approx_of cv fl c)))) < 2 ^ 31"
  shows "\<exists>plates. detect_plates_contour_method cv fl img = Inr plates"
proof -
  define kept where
    "kept = take 10 (py_sorted_reverse (contourArea cv) (findContours cv img))"
  have "set kept \<subseteq> set (py_sorted_reverse (contourArea cv) (findContours cv img))"
    unfolding kept_def by (rule set_take_subset)
  also have "\<dots> = set (findContours cv img)"
    using py_sorted_reverse_mset[of "contourArea cv" "findContours cv img"] by (rule mset_eq_setD)
  finally have sub: "set kept \<subseteq> set (findContours cv img)" .
  have "\<forall>c\<in>set kept. length (approx_of cv fl c) = 4 \<longrightarrow>
             py_float fl (snd (snd (snd (boundingRect cv (approx_of cv fl c))))) \<noteq> 0"
  proof (intro ballI impI)
    fix c assume c: "c \<in> set kept" "length (approx_of cv fl c) = 4"
    define h where "h = snd (snd (snd (boundingRect cv (approx_of cv fl c))))"
    have "0 < h" "h < 2 ^ 31" using c sub rect unfolding h_def by blast+
    from py_float_bounds(3)[OF fl this] show
      "py_float fl (snd (snd (snd (boundingRect cv (approx_of cv fl c))))) \<noteq> 0"
      unfolding h_def by simp
  qed
  from plates_loop_returns[OF this, of "[]"] show ?thesis
    by (simp add: detect_plates_contour_method_def Let_def kept_def)
qed

text \<open>
  C8. When \<open>detect_plates_contour_method\<close> returns, there is a ranking of all contours
  by descending area such that the returned boxes are, in order, the bounding rectangles
  of the approximations of some contours \<open>srcs\<close> among the first ten of the ranking;
  \<open>srcs\<close> keeps the ranking's order, so it descends in area, and every approximation
  has four vertices and a computed aspect ratio between 2 and 5. Under double rounding
  the exact ratio of every returned box of 32-bit size is between 2 and 5 as well.
\<close>

theorem detect_plates_contour_method_boxes:
  assumes "detect_plates_contour_method cv fl img = Inr plates"
  shows "(\<exists>ranked srcs.
           mset ranked = mset (findContours cv img)
           \<and> sorted_wrt (\<lambda>a b. contourArea cv b \<le> contourArea cv a) ranked
           \<and> subseq srcs (take 10 ranked)
           \<and> sorted_wrt (\<lambda>a b. contourArea cv b \<le> contourArea cv a) srcs
           \<and> plates = map (\<lambda>c. boundingRect cv (approx_of cv fl c)) srcs
           \<and> (\<forall>c\<in>set srcs.
                 length (approx_of cv fl c) = 4
                 \<and> 2 \<le> aspect_ratio_of fl (boundingRect cv (approx_of cv fl c))
                 \<and> aspect_ratio_of fl (boundingRect cv (approx_of cv fl c)) \<le> 5))
         \<and> (rounds_like_double fl
              \<and> (\<forall>(x, y, w, h)\<in>set plates. 0 \<le> w \<and> w < 2 ^ 31 \<and> 0 < h \<and> h < 2 ^ 31)
             \<longrightarrow> (\<forall>(x, y, w, h)\<in>set plates. 2 * h \<le> w \<and> w \<le> 5 * h))"
proof -
  define ranked where "ranked = py_sorted_reverse (contourArea cv) (findContours cv img)"
  define srcs where "srcs = filter (plate_like cv fl) (take 10 ranked)"
  have 1: "mset ranked = mset (findContours cv img)"
    unfolding ranked_def by (rule py_sorted_reverse_mset)
  have 2: "sorted_wrt (\<lambda>a b. contourArea cv b \<le> contourArea cv a) ranked"
    unfolding ranked_def by (rule py_sorted_reverse_sorted)
  have 3: "subseq srcs (take 10 ranked)" unfolding srcs_def by simp
  have 4: "sorted_wrt (\<lambda>a b. contourArea cv b \<le> contourArea cv a) srcs"
    unfolding srcs_def using 2 by (intro sorted_wrt_filter sorted_wrt_take)
  have "plates_loop cv fl (take 10 ranked) [] = Inr plates"
    using assms by (simp add: detect_plates_contour_method_def Let_def ranked_def)
  from plates_loop_spec[OF this]
  have 5: "plates = map (\<lambda>c. boundingRect cv (approx_of cv fl c)) srcs"
    by (simp add: srcs_def)
  have 6: "\<forall>c\<in>set srcs.
                 length (approx_of cv fl c) = 4
                 \<and> 2 \<le> aspect_ratio_of fl (boundingRect cv (approx_of cv fl c))
                 \<and> aspect_ratio_of fl (boundingRect cv (approx_of cv fl c)) \<le> 5"
    by (simp add: srcs_def plate_like_def)
  have first: "\<exists>ranked srcs.
           mset ranked = mset (findContours cv img)
           \<and> sorted_wrt (\<lambda>a b. contourArea cv b \<le> contourArea cv a) ranked
           \<and> subseq srcs (take 10 ranked)
           \<and> sorted_wrt (\<lambda>a b. contourArea cv b \<le> contourArea cv a) srcs
           \<and> plates = map (\<lambda>c. boundingRect cv (approx_of cv fl c)) srcs
           \<and> (\<forall>c\<in>set srcs.
                 length (approx_of cv fl c) = 4
                 \<and> 2 \<le> aspect_ratio_of fl (boundingRect cv (approx_of cv fl c))
                 \<and> aspect_ratio_of fl (boundingRect cv (approx_of cv fl c)) \<le> 5)"
    by (rule exI[of _ ranked], rule exI[of _ srcs], intro conjI) (rule 1 2 3 4 5 6)+
  have second: "\<forall>(x, y, w, h)\<in>set plates. 2 * h \<le> w \<and> w \<le> 5 * h"
    if fl: "rounds_like_double fl"
      and sz: "\<forall>(x, y, w, h)\<in>set plates. 0 \<le> w \<and> w < 2 ^ 31 \<and> 0 < h \<and> h < 2 ^ 31"
  proof -
    have "2 * h \<le> w \<and> w \<le> 5 * h" if mem: "(x, y, w, h) \<in> set plates" for x y w h
    proof -
      from mem obtain c where c: "c \<in> set srcs" "boundingRect cv (approx_of cv fl c) = (x, y, w, h)"
        unfolding 5 by auto
      have r: "2 \<le> aspect_ratio_of fl (x, y, w, h)" "aspect_ratio_of fl (x, y, w, h) \<le> 5"
        using 6 c by auto
      have b: "0 \<le> w" "w < 2 ^ 31" "0 < h" "h < 2 ^ 31" using sz mem by auto
      show ?thesis by (rule aspect_ratio_exact[OF fl b(3,4) b(1,2) r])
    qed
    then show ?thesis by auto
  qed
  from first second show ?thesis by blast
qed

text \<open>
  The theorem at four contours: two quadrilaterals of ratio 2.5 and 4, a square and a
  triangle. The boxes of the two quadrilaterals are returned, the larger first.
\<close>

theorem detect_plates_contour_method_boxes_witness:
  "detect_plates_contour_method (demo_cv [] demo_contours) (\<lambda>x. x) demo_img
     = Inr [(5, 5, 20, 5), (0, 0, 10, 4)]
   \<and> rounds_like_double (\<lambda>x. x)
   \<and> list_all (\<lambda>(x, y, w, h). 0 \<le> w \<and> w < 2 ^ 31 \<and> 0 < h \<and> h < 2 ^ 31)
        ([(5, 5, 20, 5), (0, 0, 10, 4)] :: box list)
   \<and> list_all (\<lambda>(x, y, w, h). 2 * h \<le> w \<and> w \<le> 5 * h)
        ([(5, 5, 20, 5), (0, 0, 10, 4)] :: box list)
   \<and> (\<exists>ranked srcs.
         mset ranked = mset (findContours (demo_cv [] demo_contours) demo_img)
         \<and> subseq srcs (take 10 ranked)
         \<and> sorted_wrt (\<lambda>a b. contourArea (demo_cv [] demo_contours) b
                                 \<le> contourArea (demo_cv [] demo_contours) a) srcs
         \<and> [(5, 5, 20, 5), (0, 0, 10, 4)]
              = map (\<lambda>c. boundingRect (demo_cv [] demo_contours)
                            (approx_of (demo_cv [] demo_contours) (\<lambda>x. x) c)) srcs)"
proof -
  let ?plates = "[(5, 5, 20, 5), (0, 0, 10, 4)] :: box list"
  have h: "detect_plates_contour_method (demo_cv [] demo_contours) (\<lambda>x. x) demo_img
     = Inr ?plates"
    by code_simp
  have sz': "list_all (\<lambda>(x, y, w, h). 0 \<le> w \<and> w < 2 ^ 31 \<and> 0 < h \<and> h < 2 ^ 31) ?plates"
    by simp
  then have sz: "\<forall>(x, y, w, h)\<in>set ?plates. 0 \<le> w \<and> w < 2 ^ 31 \<and> 0 < h \<and> h < 2 ^ 31"
    unfolding list_all_iff .
  note both = detect_plates_contour_method_boxes[OF h]
  from both[THEN conjunct2] rounds_like_double_exact sz
  have "\<forall>(x, y, w, h)\<in>set ?plates. 2 * h \<le> w \<and> w \<le> 5 * h" by blast
  then have ex: "list_all (\<lambda>(x, y, w, h). 2 * h \<le> w \<and> w \<le> 5 * h) ?plates"
    unfolding list_all_iff .
  from both[THEN conjunct1] obtain ranked srcs where
    r: "mset ranked = mset (findContours (demo_cv [] demo_contours) demo_img)"
       "subseq srcs (take 10 ranked)"
       "sorted_wrt (\<lambda>a b. contourArea (demo_cv [] demo_contours) b
                                 \<le> contourArea (demo_cv [] demo_contours) a) srcs"
       "?plates
              = map (\<lambda>c. boundingRect (demo_cv [] demo_contours)
                            (approx_of (demo_cv [] demo_contours) (\<lambda>x. x) c)) srcs"
    by (elim exE conjE) auto
  show ?thesis
    by (intro conjI, rule h, rule rounds_like_double_exact, rule sz', rule ex,
        rule exI[of _ ranked], rule exI[of _ srcs], intro conjI) (rule r)+
qed

end
